theory Spec2Isabelle
  imports Complex_Main "HOL-Library.Sublist" "HOL-Library.Char_ord" "HOL-Library.List_Lexorder"
    "HOL-Library.Multiset"
begin

section \<open>The text chunker (src/jarvis/memory.py, chunk\_text)\<close>

text \<open>
  Python strings are sequences of code points; the model uses \<open>string\<close>, that is the code
  points below 256, and \<open>length\<close> counts characters as Python's \<open>len\<close> does.
  Python's \<open>\s\<close> (in a \<open>str\<close> pattern) and \<open>str.strip()\<close> use the same notion of
  whitespace; below 256 these are the twelve characters of \<open>is_space\<close>.
\<close>

definition is_space :: "char \<Rightarrow> bool" where
  "is_space c = (c \<in> set [CHR 0x09, CHR 0x0A, CHR 0x0B, CHR 0x0C, CHR 0x0D,
                           CHR 0x1C, CHR 0x1D, CHR 0x1E, CHR 0x1F, CHR '' '',
                           CHR 0x85, CHR 0xA0])"

text \<open>The character class \<open>[.!?\n]\<close> of the look-behind.\<close>

definition is_terminator :: "char \<Rightarrow> bool" where
  "is_terminator c = (c \<in> set [CHR ''.'', CHR ''!'', CHR ''?'', CHR 0x0A])"

text \<open>
  \<open>re.split(r'(?<=[.!?\n])\s+', text)\<close>: the text is scanned from the left; a match starts
  at a whitespace character whose predecessor in the text is a terminator, and takes the
  whole run of whitespace (the \<open>+\<close> is greedy and nothing follows it). The pieces between
  the matches are returned, the last one also when it is empty. \<open>acc\<close> is the piece read
  so far: it is empty exactly at the start of the text and right after a match, where the
  next character is no whitespace, so \<open>last acc\<close> is the predecessor whenever it is read.
\<close>

function re_split :: "string \<Rightarrow> string \<Rightarrow> string list" where
  "re_split acc [] = [acc]"
| "re_split acc (c # cs) =
     (if acc \<noteq> [] \<and> is_terminator (last acc) \<and> is_space c
      then acc # re_split [] (dropWhile is_space cs)
      else re_split (acc @ [c]) cs)"
  by pat_completeness auto
termination
  by (relation "measure (\<lambda>(acc, rest). length rest)")
     (auto simp: length_dropWhile_le less_Suc_eq_le)

text \<open>\<open>str.strip()\<close>: whitespace removed at both ends.\<close>

definition strip :: "string \<Rightarrow> string" where
  "strip s = rev (dropWhile is_space (rev (dropWhile is_space s)))"

text \<open>\<open>s.find(c)\<close>: the index of the first occurrence, or \<open>-1\<close>.\<close>

definition str_find :: "string \<Rightarrow> char \<Rightarrow> int" where
  "str_find s c = (if c \<in> set s then int (length (takeWhile (\<lambda>d. d \<noteq> c) s)) else - 1)"

text \<open>
  Lines 40 to 44, evaluated only under the guard of line 38 (\<open>overlap > 0\<close>):
  \<open>current_chunk[-overlap:]\<close> is the last \<open>overlap\<close> characters (the whole string when it
  is shorter), cut after its first space when that space is not its first character.
\<close>

definition overlap_seed :: "int \<Rightarrow> string \<Rightarrow> string" where
  "overlap_seed overlap current_chunk =
     (let overlap_text = drop (length current_chunk - nat overlap) current_chunk;
          space_idx = str_find overlap_text (CHR '' '')
      in if space_idx > 0 then drop (nat (space_idx + 1)) overlap_text else overlap_text)"

text \<open>One iteration of the loop of lines 33 to 49, on the pair \<open>(chunks, current_chunk)\<close>.\<close>

definition chunk_step ::
  "int \<Rightarrow> int \<Rightarrow> string list \<times> string \<Rightarrow> string \<Rightarrow> string list \<times> string" where
  "chunk_step chunk_size overlap st sentence =
     (case st of (chunks, current_chunk) \<Rightarrow>
        if int (length current_chunk) + int (length sentence) > chunk_size \<and> current_chunk \<noteq> []
        then (chunks @ [strip current_chunk],
              if overlap > 0 \<and> int (length current_chunk) > overlap
              then overlap_seed overlap current_chunk @ '' '' @ sentence
              else sentence)
        else (chunks,
              if current_chunk \<noteq> [] then strip (current_chunk @ '' '' @ sentence)
              else sentence))"

text \<open>Lines 28 to 53: the list \<open>chunks\<close> as it stands before the last line.\<close>

definition chunk_split :: "string \<Rightarrow> int \<Rightarrow> int \<Rightarrow> string list" where
  "chunk_split text chunk_size overlap =
     (case foldl (chunk_step chunk_size overlap) ([], []) (re_split [] text) of
        (chunks, current_chunk) \<Rightarrow>
          if strip current_chunk \<noteq> [] then chunks @ [strip current_chunk] else chunks)"

definition chunk_text :: "string \<Rightarrow> int \<Rightarrow> int \<Rightarrow> string list" where
  "chunk_text text chunk_size overlap =
     (if int (length text) \<le> chunk_size then [text]
      else (let chunks = chunk_split text chunk_size overlap
            in if chunks \<noteq> [] then chunks else [text]))"

definition CHUNK_SIZE :: int where
  "CHUNK_SIZE = 250"

definition CHUNK_OVERLAP :: int where
  "CHUNK_OVERLAP = 50"

section \<open>The memory store (src/jarvis/memory.py, MemoryManager)\<close>

text \<open>
  Exceptions are values: every operation returns its result or the exception raised,
  together with the manager as the exception leaves it (Python keeps the attributes
  assigned before the raise).
\<close>

datatype error = EmbeddingProviderError | ValueError | TypeError | IndexError | AttributeError

text \<open>
  An embedding is a one-dimensional array of numbers. The model computes with real numbers:
  rounding of the 32-bit floats and NaN are outside it.
\<close>

type_synonym vec = "real list"

record memory_row =
  id_col :: string
  content_col :: string
  created_at_col :: string

record chunk_row =
  memory_id :: string
  chunk_index :: nat
  chunk_text_col :: string
  embedding :: vec

record search_result =
  result_id :: string
  result_content :: string
  similarity :: real
  result_created_at :: string

text \<open>The calls made to the embedding provider, in order (lines 100 and 108).\<close>

datatype provider_call = Embed string | EmbedBatch "string list"

text \<open>
  The manager: the two parquet files (\<open>None\<close> when the file does not exist), the three
  cached attributes (\<open>None\<close> as in Python), and the trace of provider calls. A table is the
  list of its rows; the embedding matrix is the list of its rows.
\<close>

record manager =
  memories_path :: "memory_row list option"
  chunks_path :: "chunk_row list option"
  memories_cache :: "memory_row list option"
  chunks_cache :: "chunk_row list option"
  chunk_embeddings :: "vec list option"
  provider_calls :: "provider_call list"

text \<open>A manager right after \<open>__init__\<close> on a data directory with the given files.\<close>

definition init :: "memory_row list option \<Rightarrow> chunk_row list option \<Rightarrow> manager" where
  "init memories_file chunks_file =
     \<lparr>memories_path = memories_file, chunks_path = chunks_file,
      memories_cache = None, chunks_cache = None, chunk_embeddings = None,
      provider_calls = []\<rparr>"

text \<open>\<open>pd.concat\<close> skips an operand that is \<open>None\<close>.\<close>

definition table_rows :: "'a list option \<Rightarrow> 'a list" where
  "table_rows t = (case t of None \<Rightarrow> [] | Some rs \<Rightarrow> rs)"

text \<open>
  \<open>np.vstack\<close> on a sequence of one-dimensional arrays: it raises on an empty sequence
  and on arrays of different lengths. Stacking two matrices (line 147) is stacking their
  rows, since a numpy matrix has rows of one length.
\<close>

definition np_vstack :: "vec list \<Rightarrow> error + vec list" where
  "np_vstack arrays =
     (case arrays of
        [] \<Rightarrow> Inl ValueError
      | v # vs \<Rightarrow> if list_all (\<lambda>w. length w = length v) vs then Inr arrays else Inl ValueError)"

definition dot :: "vec \<Rightarrow> vec \<Rightarrow> real" where
  "dot a b = sum_list (map2 (*) a b)"

text \<open>\<open>matrix @ vector\<close>: every row must have the length of the vector.\<close>

definition matvec :: "vec list \<Rightarrow> vec \<Rightarrow> error + real list" where
  "matvec M q =
     (if list_all (\<lambda>r. length r = length q) M then Inr (map (\<lambda>r. dot r q) M)
      else Inl ValueError)"

text \<open>\<open>_load\<close> (lines 71 to 91).\<close>

definition load_tables :: "manager \<Rightarrow> (error + unit) \<times> manager" where
  "load_tables m =
     (if memories_cache m \<noteq> None then (Inr (), m)
      else
        let m1 = m\<lparr>memories_cache := Some (table_rows (memories_path m))\<rparr>
        in case chunks_path m1 of
             Some t \<Rightarrow>
               let m2 = m1\<lparr>chunks_cache := Some t\<rparr>
               in if length t > 0
                  then (case np_vstack (map embedding t) of
                          Inl e \<Rightarrow> (Inl e, m2)
                        | Inr M \<Rightarrow> (Inr (), m2\<lparr>chunk_embeddings := Some M\<rparr>))
                  else (Inr (), m2\<lparr>chunk_embeddings := Some []\<rparr>)
           | None \<Rightarrow> (Inr (), m1\<lparr>chunks_cache := Some [], chunk_embeddings := Some []\<rparr>))"

text \<open>\<open>_save\<close> (lines 93 to 96): the two files are written one after the other.\<close>

definition save_tables :: "manager \<Rightarrow> (error + unit) \<times> manager" where
  "save_tables m =
     (case memories_cache m of
        None \<Rightarrow> (Inl AttributeError, m)
      | Some ms \<Rightarrow>
          (let m1 = m\<lparr>memories_path := Some ms\<rparr>
           in (case chunks_cache m1 of
                 None \<Rightarrow> (Inl AttributeError, m1)
               | Some cs \<Rightarrow> (Inr (), m1\<lparr>chunks_path := Some cs\<rparr>))))"

text \<open>The chunk rows of lines 133 to 141; \<open>zip\<close> stops at the shorter list.\<close>

definition new_chunk_rows :: "string \<Rightarrow> string list \<Rightarrow> vec list \<Rightarrow> chunk_row list" where
  "new_chunk_rows now_id chunks embeddings =
     map (\<lambda>(i, chunk, emb).
            \<lparr>memory_id = now_id, chunk_index = i, chunk_text_col = chunk, embedding = emb\<rparr>)
         (enumerate 0 (zip chunks embeddings))"

text \<open>
  \<open>save\<close> (lines 114 to 152). \<open>now_id\<close> and \<open>now_iso\<close> are the two readings of the clock,
  \<open>response\<close> is what the provider answers to the batch call: an error, or the list of
  embeddings.
\<close>

definition save ::
  "string \<Rightarrow> string \<Rightarrow> string \<Rightarrow> error + vec list \<Rightarrow> manager \<Rightarrow> (error + string) \<times> manager" where
  "save content now_id now_iso response m =
     (case load_tables m of
        (Inl e, m0) \<Rightarrow> (Inl e, m0)
      | (Inr _, m0) \<Rightarrow>
          (let new_memory = \<lparr>id_col = now_id, content_col = content, created_at_col = now_iso\<rparr>;
               m1 = m0\<lparr>memories_cache := Some (table_rows (memories_cache m0) @ [new_memory])\<rparr>;
               chunks = chunk_text content CHUNK_SIZE CHUNK_OVERLAP;
               m2 = m1\<lparr>provider_calls := provider_calls m1 @ [EmbedBatch chunks]\<rparr>
           in (case response of
                 Inl e \<Rightarrow> (Inl e, m2)
               | Inr embeddings \<Rightarrow>
                   (let new_chunks = new_chunk_rows now_id chunks embeddings;
                        m3 = m2\<lparr>chunks_cache := Some (table_rows (chunks_cache m2) @ new_chunks)\<rparr>
                    in (case np_vstack embeddings of
                          Inl e \<Rightarrow> (Inl e, m3)
                        | Inr new_emb_matrix \<Rightarrow>
                            (case chunk_embeddings m3 of
                               None \<Rightarrow> (Inl TypeError, m3)
                             | Some old \<Rightarrow>
                                 (case (if length old > 0 then np_vstack (old @ new_emb_matrix)
                                        else Inr new_emb_matrix) of
                                    Inl e \<Rightarrow> (Inl e, m3)
                                  | Inr M \<Rightarrow>
                                      (case save_tables (m3\<lparr>chunk_embeddings := Some M\<rparr>) of
                                         (Inl e, m4) \<Rightarrow> (Inl e, m4)
                                       | (Inr _, m4) \<Rightarrow> (Inr now_id, m4)))))))))"

text \<open>
  \<open>groupby("memory_id")["similarity"].max().reset_index()\<close>: one row per distinct key, the
  keys in ascending order, with the largest similarity of the key's rows. \<open>list_max\<close> is
  only applied to the similarities of a key that occurs, never to the empty list.
\<close>

fun list_max :: "real list \<Rightarrow> real" where
  "list_max [x] = x"
| "list_max (x # y # ys) = max x (list_max (y # ys))"

definition groupby_max :: "(string \<times> real) list \<Rightarrow> (string \<times> real) list" where
  "groupby_max rs =
     map (\<lambda>k. (k, list_max (map snd (filter (\<lambda>r. fst r = k) rs)))) (sort (remdups (map fst rs)))"

text \<open>
  \<open>sort_values("similarity", ascending=False)\<close> (line 170) sorts with pandas' default
  kind, quicksort, which is not stable: the rows come out in descending order of
  similarity, and the call does not determine the order of rows of equal similarity. The
  sort is therefore a parameter \<open>sort_values\<close> of the model, any function that permutes
  its rows into descending order.
\<close>

definition sorts_descending ::
  "((string \<times> real) list \<Rightarrow> (string \<times> real) list) \<Rightarrow> bool" where
  "sorts_descending sort_values =
     (\<forall>rs. mset (sort_values rs) = mset rs \<and>
           sorted_wrt (\<lambda>a b. snd a \<ge> snd b) (sort_values rs))"

text \<open>Two such sorts: one keeps rows of equal similarity in their order, one reverses them.\<close>

definition stable_descending :: "(string \<times> real) list \<Rightarrow> (string \<times> real) list" where
  "stable_descending rs = sort_key (\<lambda>r. - snd r) rs"

definition reversing_descending :: "(string \<times> real) list \<Rightarrow> (string \<times> real) list" where
  "reversing_descending rs = rev (sort_key snd rs)"

text \<open>Lines 165 to 170: the rows the loop walks.\<close>

definition best_per_memory ::
  "((string \<times> real) list \<Rightarrow> (string \<times> real) list) \<Rightarrow> string list \<Rightarrow> real list
     \<Rightarrow> (string \<times> real) list" where
  "best_per_memory sort_values ids similarities = sort_values (groupby_max (zip ids similarities))"

text \<open>
  The loop of lines 172 to 186 over the sorted rows, with \<open>results\<close> as accumulator;
  \<open>.iloc[0]\<close> raises IndexError when no memory row has the id.
\<close>

fun search_walk ::
  "memory_row list \<Rightarrow> real \<Rightarrow> int \<Rightarrow> (string \<times> real) list \<Rightarrow> search_result list
     \<Rightarrow> error + search_result list" where
  "search_walk memories threshold min_results [] results = Inr results"
| "search_walk memories threshold min_results ((mid, sim) # rest) results =
     (if sim \<ge> threshold \<or> int (length results) < min_results
      then (case find (\<lambda>r. id_col r = mid) memories of
              None \<Rightarrow> Inl IndexError
            | Some memory \<Rightarrow>
                search_walk memories threshold min_results rest
                  (results @ [\<lparr>result_id = mid, result_content = content_col memory,
                               similarity = sim, result_created_at = created_at_col memory\<rparr>]))
      else Inr results)"

text \<open>
  \<open>search\<close> (lines 154 to 188). \<open>response\<close> is what the provider answers to the query's
  embedding call, if the call is made. Without a matrix, \<open>None @ query_embedding\<close> raises
  ValueError; without a chunk table, \<open>len(None)\<close> raises TypeError.
\<close>

definition search ::
  "((string \<times> real) list \<Rightarrow> (string \<times> real) list) \<Rightarrow> string \<Rightarrow> real \<Rightarrow> int \<Rightarrow> error + vec
     \<Rightarrow> manager \<Rightarrow> (error + search_result list) \<times> manager" where
  "search sort_values query threshold min_results response m =
     (case load_tables m of
        (Inl e, m0) \<Rightarrow> (Inl e, m0)
      | (Inr _, m0) \<Rightarrow>
          (case chunks_cache m0 of
             None \<Rightarrow> (Inl TypeError, m0)
           | Some chunks \<Rightarrow>
               if length chunks = 0 then (Inr [], m0)
               else
                 let m1 = m0\<lparr>provider_calls := provider_calls m0 @ [Embed query]\<rparr>
                 in (case response of
                      Inl e \<Rightarrow> (Inl e, m1)
                    | Inr query_embedding \<Rightarrow>
                        (case chunk_embeddings m1 of
                           None \<Rightarrow> (Inl ValueError, m1)
                         | Some M \<Rightarrow>
                             (case matvec M query_embedding of
                                Inl e \<Rightarrow> (Inl e, m1)
                              | Inr similarities \<Rightarrow>
                                  if length similarities \<noteq> length chunks then (Inl ValueError, m1)
                                  else
                                    (search_walk (table_rows (memories_cache m1)) threshold
                                       min_results
                                       (best_per_memory sort_values (map memory_id chunks)
                                          similarities) [],
                                     m1))))))"

text \<open>\<open>get_all\<close> (lines 190 to 193).\<close>

definition get_all :: "manager \<Rightarrow> (error + memory_row list) \<times> manager" where
  "get_all m =
     (case load_tables m of
        (Inl e, m0) \<Rightarrow> (Inl e, m0)
      | (Inr _, m0) \<Rightarrow> (Inr (table_rows (memories_cache m0)), m0))"

text \<open>\<open>delete\<close> (lines 195 to 214).\<close>

definition delete :: "string \<Rightarrow> manager \<Rightarrow> (error + bool) \<times> manager" where
  "delete mid m =
     (case load_tables m of
        (Inl e, m0) \<Rightarrow> (Inl e, m0)
      | (Inr _, m0) \<Rightarrow>
          (case memories_cache m0 of
             None \<Rightarrow> (Inl TypeError, m0)
           | Some memories \<Rightarrow>
               if mid \<notin> set (map id_col memories) then (Inr False, m0)
               else
                 let m1 = m0\<lparr>memories_cache := Some (filter (\<lambda>r. id_col r \<noteq> mid) memories)\<rparr>
                 in (case chunks_cache m1 of
                      None \<Rightarrow> (Inl TypeError, m1)
                    | Some chunks \<Rightarrow>
                        (let remaining = filter (\<lambda>c. memory_id c \<noteq> mid) chunks;
                             m2 = m1\<lparr>chunks_cache := Some remaining\<rparr>
                         in (case (if length remaining > 0 then np_vstack (map embedding remaining)
                                   else Inr []) of
                               Inl e \<Rightarrow> (Inl e, m2)
                             | Inr M \<Rightarrow>
                                 (case save_tables (m2\<lparr>chunk_embeddings := Some M\<rparr>) of
                                    (Inl e, m3) \<Rightarrow> (Inl e, m3)
                                  | (Inr _, m3) \<Rightarrow> (Inr True, m3)))))))"

section \<open>Notions used in the statements\<close>

text \<open>
  The tables a manager stands for: its cache once loaded, the files before that.
\<close>

definition memory_table :: "manager \<Rightarrow> memory_row list" where
  "memory_table m =
     (case memories_cache m of Some ms \<Rightarrow> ms | None \<Rightarrow> table_rows (memories_path m))"

definition chunk_table :: "manager \<Rightarrow> chunk_row list" where
  "chunk_table m =
     (case memories_cache m of
        Some ms \<Rightarrow> table_rows (chunks_cache m)
      | None \<Rightarrow> table_rows (chunks_path m))"

text \<open>
  A consistent store of dimension \<open>D\<close>: every stored embedding has \<open>D\<close> components and,
  once loaded, the matrix is the column of embeddings of the chunk table. A manager that
  has not loaded yet is consistent when the chunks file is.
\<close>

definition row_dims :: "nat \<Rightarrow> chunk_row list \<Rightarrow> bool" where
  "row_dims D cs = list_all (\<lambda>c. length (embedding c) = D) cs"

definition consistent :: "nat \<Rightarrow> manager \<Rightarrow> bool" where
  "consistent D m =
     (case memories_cache m of
        None \<Rightarrow> row_dims D (table_rows (chunks_path m))
      | Some ms \<Rightarrow>
          (case chunks_cache m of
             None \<Rightarrow> False
           | Some cs \<Rightarrow> chunk_embeddings m = Some (map embedding cs) \<and> row_dims D cs))"

text \<open>What a result says about ranking: the memory id and its similarity.\<close>

definition hit :: "search_result \<Rightarrow> string \<times> real" where
  "hit r = (result_id r, similarity r)"

text \<open>
  The ranking of a chunk table against a query embedding: the rows the loop of \<open>search\<close>
  walks when the matrix is the embedding column of the table.
\<close>

definition ranking ::
  "((string \<times> real) list \<Rightarrow> (string \<times> real) list) \<Rightarrow> chunk_row list \<Rightarrow> vec
     \<Rightarrow> (string \<times> real) list" where
  "ranking sort_values chunks q =
     best_per_memory sort_values (map memory_id chunks) (map (\<lambda>c. dot (embedding c) q) chunks)"

text \<open>
  The best-chunk score of a memory: the largest dot product of the query embedding with
  the embedding of one of its chunks.
\<close>

definition best_score :: "chunk_row list \<Rightarrow> vec \<Rightarrow> string \<Rightarrow> real" where
  "best_score chunks q k = Max ((\<lambda>c. dot (embedding c) q) ` {c \<in> set chunks. memory_id c = k})"

text \<open>Sequences of mutating calls; an exception leaves the manager as it stands.\<close>

datatype operation = Save string string string "error + vec list" | Delete string

fun apply_operation :: "operation \<Rightarrow> manager \<Rightarrow> manager" where
  "apply_operation (Save content now_id now_iso response) m =
     snd (save content now_id now_iso response m)"
| "apply_operation (Delete mid) m = snd (delete mid m)"

definition run :: "operation list \<Rightarrow> manager \<Rightarrow> manager" where
  "run ops m = fold apply_operation ops m"

text \<open>
  The provider's contract (section 4.2 of the specification): a batch call that succeeds
  answers one vector per input, each of the store's dimension.
\<close>

fun provider_contract :: "nat \<Rightarrow> operation \<Rightarrow> bool" where
  "provider_contract D (Save content now_id now_iso (Inr embeddings)) =
     (length embeddings = length (chunk_text content CHUNK_SIZE CHUNK_OVERLAP) \<and>
      list_all (\<lambda>e. length e = D) embeddings)"
| "provider_contract D (Save content now_id now_iso (Inl e)) = True"
| "provider_contract D (Delete mid) = True"

text \<open>\<open>str.split()\<close>: the maximal runs of characters that are not whitespace.\<close>

fun words_aux :: "string \<Rightarrow> string \<Rightarrow> string list" where
  "words_aux w [] = (if w = [] then [] else [w])"
| "words_aux w (c # cs) =
     (if is_space c then (if w = [] then [] else [w]) @ words_aux [] cs
      else words_aux (w @ [c]) cs)"

definition split_words :: "string \<Rightarrow> string list" where
  "split_words s = words_aux [] s"

text \<open>
  A chunk is seeded by \<open>(seed, segment)\<close> when its words are the words of a seed of at
  most \<open>overlap\<close> characters followed by the words of the segment.
\<close>

definition seeded :: "int \<Rightarrow> string \<Rightarrow> string \<times> string list \<Rightarrow> bool" where
  "seeded ov chunk part =
     (int (length (fst part)) \<le> max 0 ov \<and>
      split_words chunk = split_words (fst part) @ snd part)"

text \<open>
  The next buffer as the specification words it: the last \<open>overlap\<close> characters of the
  closed chunk, cut after the first space if the tail has one, then a space and the
  sentence.
\<close>

definition spec_overlap_buffer :: "int \<Rightarrow> string \<Rightarrow> string \<Rightarrow> string" where
  "spec_overlap_buffer overlap closed_chunk sentence =
     (let tail = drop (length closed_chunk - nat overlap) closed_chunk;
          seed = (if CHR '' '' \<in> set tail then tl (dropWhile (\<lambda>c. c \<noteq> CHR '' '') tail)
                  else tail)
      in seed @ '' '' @ sentence)"

text \<open>Auxiliary notions of the proofs about the chunker.\<close>

definition trimmed :: "string \<Rightarrow> bool" where
  "trimmed w = (w = [] \<or> (\<not> is_space (hd w) \<and> \<not> is_space (last w)))"

definition covered :: "string list \<Rightarrow> string \<Rightarrow> string \<Rightarrow> bool" where
  "covered chunks cur w = ((\<exists>c\<in>set chunks. sublist w c) \<or> sublist w cur)"

definition loop_inv :: "int \<Rightarrow> string list \<times> string \<Rightarrow> string list \<Rightarrow> bool" where
  "loop_inv ov st seen =
     (\<exists>parts part. list_all2 (seeded ov) (fst st) parts \<and> seeded ov (snd st) part \<and>
        concat (map snd parts) @ snd part = concat (map split_words seen))"

section \<open>Example stores\<close>

text \<open>
  Three memories of one chunk each, listed in the files in the order C, A, B, with
  one-dimensional embeddings, so that the query embedding \<open>[1]\<close> scores them 0.1, 0.9
  and 0.5.
\<close>

definition example_abc :: manager where
  "example_abc =
     init (Some [\<lparr>id_col = ''C'', content_col = ''gamma'', created_at_col = ''t1''\<rparr>,
                 \<lparr>id_col = ''A'', content_col = ''alpha'', created_at_col = ''t2''\<rparr>,
                 \<lparr>id_col = ''B'', content_col = ''beta'', created_at_col = ''t3''\<rparr>])
          (Some [\<lparr>memory_id = ''C'', chunk_index = 0, chunk_text_col = ''gamma'', embedding = [0.1]\<rparr>,
                 \<lparr>memory_id = ''A'', chunk_index = 0, chunk_text_col = ''alpha'', embedding = [0.9]\<rparr>,
                 \<lparr>memory_id = ''B'', chunk_index = 0, chunk_text_col = ''beta'', embedding = [0.5]\<rparr>])"

text \<open>The same store after its first access.\<close>

definition example_loaded :: manager where
  "example_loaded = snd (get_all example_abc)"

text \<open>A memory of three chunks that score 0.2, 0.95 and 0.4, and a memory of one chunk.\<close>

definition example_multi :: manager where
  "example_multi =
     init (Some [\<lparr>id_col = ''M1'', content_col = ''a long note'', created_at_col = ''t1''\<rparr>,
                 \<lparr>id_col = ''M2'', content_col = ''a short note'', created_at_col = ''t2''\<rparr>])
          (Some [\<lparr>memory_id = ''M1'', chunk_index = 0, chunk_text_col = ''a'', embedding = [0.2]\<rparr>,
                 \<lparr>memory_id = ''M1'', chunk_index = 1, chunk_text_col = ''long'', embedding = [0.95]\<rparr>,
                 \<lparr>memory_id = ''M2'', chunk_index = 0, chunk_text_col = ''a short note'', embedding = [0.5]\<rparr>,
                 \<lparr>memory_id = ''M1'', chunk_index = 2, chunk_text_col = ''note'', embedding = [0.4]\<rparr>])"

text \<open>
  Calls on a store of dimension 2: two saves that succeed, one whose provider call fails,
  and the deletion of a stored and of an unknown id.
\<close>

definition example_ops :: "operation list" where
  "example_ops =
     [Save ''alpha'' ''A'' ''t1'' (Inr [[0.9, 0.1]]),
      Save ''beta'' ''B'' ''t2'' (Inl EmbeddingProviderError),
      Save ''gamma'' ''C'' ''t3'' (Inr [[0.5, 0.5]]),
      Delete ''A'',
      Delete ''Z'']"

section \<open>The chunker: auxiliary lemmas\<close>

subsection \<open>Stripping and contiguous substrings\<close>

lemma sublist_trans: "sublist xs ys \<Longrightarrow> sublist ys zs \<Longrightarrow> sublist xs zs"
  unfolding sublist_def by (metis append.assoc)

lemma strip_prefix_lstrip: "prefix (strip s) (dropWhile is_space s)"
  unfolding strip_def by (metis suffix_dropWhile suffix_to_prefix rev_rev_ident)

lemma strip_sublist: "sublist (strip s) s"
proof -
  have "suffix (dropWhile is_space s) s"
    by (rule suffix_dropWhile)
  with strip_prefix_lstrip[of s] show ?thesis
    by (meson prefix_imp_sublist suffix_imp_sublist sublist_trans)
qed

lemma trimmed_strip: "trimmed (strip s)"
proof (cases "strip s = []")
  case True
  then show ?thesis by (simp add: trimmed_def)
next
  case False
  let ?y = "dropWhile is_space s"
  have ne: "?y \<noteq> []"
  proof
    assume "?y = []"
    then have "strip s = []" by (simp only: strip_def rev.simps dropWhile.simps)
    with False show False by simp
  qed
  have "hd (strip s) = hd ?y"
    using strip_prefix_lstrip[of s] False by (auto simp: prefix_def)
  moreover have "\<not> is_space (hd ?y)" using ne by (rule hd_dropWhile)
  moreover have "last (strip s) = hd (dropWhile is_space (rev ?y))"
    using False by (simp add: strip_def last_rev)
  moreover have "\<not> is_space (hd (dropWhile is_space (rev ?y)))"
  proof (rule hd_dropWhile)
    show "dropWhile is_space (rev ?y) \<noteq> []"
      using False unfolding strip_def rev_is_Nil_conv .
  qed
  ultimately show ?thesis by (simp add: trimmed_def)
qed

lemma sublist_dropWhile:
  assumes "w \<noteq> []" "\<not> P (hd w)" "sublist w z"
  shows "sublist w (dropWhile P z)"
proof -
  from assms(3) obtain p q where z: "z = p @ w @ q" by (auto simp: sublist_def)
  have "sublist w (dropWhile P (p @ w @ q))"
  proof (induction p)
    case Nil
    from assms(1,2) show ?case by (cases w) auto
  next
    case (Cons a p)
    show ?case using Cons.IH by (auto simp: sublist_Cons_right)
  qed
  with z show ?thesis by simp
qed

lemma sublist_strip:
  assumes "trimmed w" "sublist w z"
  shows "sublist w (strip z)"
proof (cases "w = []")
  case True
  then show ?thesis by simp
next
  case False
  with assms(1) have h: "\<not> is_space (hd w)" and l: "\<not> is_space (last w)"
    by (auto simp: trimmed_def)
  have 1: "sublist w (dropWhile is_space z)"
    using False h assms(2) by (rule sublist_dropWhile)
  have "sublist (rev w) (dropWhile is_space (rev (dropWhile is_space z)))"
  proof (rule sublist_dropWhile)
    show "rev w \<noteq> []" using False by simp
    show "\<not> is_space (hd (rev w))" using False l by (simp add: hd_rev)
    show "sublist (rev w) (rev (dropWhile is_space z))" using 1 by simp
  qed
  then show ?thesis by (simp add: strip_def sublist_rev_right)
qed

lemma re_split_sublist: "s \<in> set (re_split acc rest) \<Longrightarrow> sublist s (acc @ rest)"
proof (induction acc rest rule: re_split.induct)
  case (1 acc)
  then show ?case by simp
next
  case (2 acc c cs)
  show ?case
  proof (cases "acc \<noteq> [] \<and> is_terminator (last acc) \<and> is_space c")
    case True
    with "2.prems" have "s = acc \<or> s \<in> set (re_split [] (dropWhile is_space cs))" by simp
    then show ?thesis
    proof
      assume "s = acc" then show ?thesis by simp
    next
      assume "s \<in> set (re_split [] (dropWhile is_space cs))"
      with "2.IH"(1) True have "sublist s (dropWhile is_space cs)" by simp
      moreover have "sublist (dropWhile is_space cs) (acc @ c # cs)"
      proof -
        have "suffix (dropWhile is_space cs) (acc @ c # cs)"
          by (metis suffix_dropWhile suffix_ConsI suffix_appendI)
        then show ?thesis by (rule suffix_imp_sublist)
      qed
      ultimately show ?thesis by (rule sublist_trans)
    qed
  next
    case False
    with "2.prems" have "s \<in> set (re_split (acc @ [c]) cs)" by auto
    with "2.IH"(2) False show ?thesis by auto
  qed
qed

subsection \<open>Words\<close>

lemma words_aux_all_space:
  "\<forall>c\<in>set sps. is_space c \<Longrightarrow> words_aux w sps = words_aux w []"
proof (induction sps arbitrary: w)
  case Nil
  then show ?case by simp
next
  case (Cons c sps)
  then have "words_aux [] sps = words_aux [] []" by simp
  with Cons.prems show ?case by simp
qed

lemma words_aux_append_space:
  "is_space c \<Longrightarrow> words_aux w (a @ c # b) = words_aux w a @ words_aux [] b"
  by (induction a arbitrary: w) auto

lemma words_aux_trailing:
  "\<forall>c\<in>set sps. is_space c \<Longrightarrow> words_aux w (t @ sps) = words_aux w t"
proof (induction t arbitrary: w)
  case Nil
  then show ?case by (simp add: words_aux_all_space)
next
  case (Cons a t)
  then show ?case by simp
qed

lemma words_aux_dropWhile: "words_aux [] (dropWhile is_space s) = words_aux [] s"
  by (induction s) auto

lemma split_words_rstrip:
  "split_words (rev (dropWhile is_space (rev s))) = split_words s"
proof -
  have "s = rev (dropWhile is_space (rev s)) @ rev (takeWhile is_space (rev s))"
    by (metis rev_append rev_rev_ident takeWhile_dropWhile_id)
  moreover have "\<forall>c\<in>set (rev (takeWhile is_space (rev s))). is_space c"
    by (auto dest: set_takeWhileD)
  ultimately show ?thesis
    unfolding split_words_def by (metis words_aux_trailing)
qed

lemma split_words_dropWhile: "split_words (dropWhile is_space s) = split_words s"
  by (simp add: split_words_def words_aux_dropWhile)

lemma split_words_strip: "split_words (strip s) = split_words s"
  unfolding strip_def split_words_rstrip by (rule split_words_dropWhile)

lemma space_is_space: "is_space (CHR '' '')"
  by (simp add: is_space_def)

lemma split_words_append_space:
  "is_space c \<Longrightarrow> split_words (a @ c # b) = split_words a @ split_words b"
  by (simp add: split_words_def words_aux_append_space)

lemma split_words_join: "split_words (a @ '' '' @ b) = split_words a @ split_words b"
  using split_words_append_space[OF space_is_space, of a b] by simp

lemma split_words_Nil: "split_words [] = []"
  by (simp add: split_words_def)

lemma split_words_re_split:
  "concat (map split_words (re_split acc rest)) = split_words (acc @ rest)"
proof (induction acc rest rule: re_split.induct)
  case (1 acc)
  then show ?case by simp
next
  case (2 acc c cs)
  show ?case
  proof (cases "acc \<noteq> [] \<and> is_terminator (last acc) \<and> is_space c")
    case True
    then have sp: "is_space c" by simp
    from True "2.IH"(1)
    have "concat (map split_words (re_split [] (dropWhile is_space cs))) = split_words cs"
      by (simp add: split_words_dropWhile)
    with True show ?thesis
      by (simp add: split_words_append_space[OF sp])
  next
    case False
    with "2.IH"(2) show ?thesis by auto
  qed
qed

lemma length_overlap_seed:
  "0 < overlap \<Longrightarrow> int (length (overlap_seed overlap cur)) \<le> overlap"
  by (auto simp: overlap_seed_def Let_def)

subsection \<open>Every sentence reaches a chunk\<close>

lemma chunk_step_covers_new:
  "covered (fst (chunk_step cs ov (chunks, cur) sentence))
           (snd (chunk_step cs ov (chunks, cur) sentence)) (strip sentence)"
proof -
  have a: "sublist (strip sentence) sentence" by (rule strip_sublist)
  have b: "sublist sentence (p @ '' '' @ sentence)" for p
    by (metis append.assoc sublist_append_leftI)
  have c: "sublist (strip sentence) (strip (cur @ '' '' @ sentence))"
    by (rule sublist_strip[OF trimmed_strip sublist_trans[OF a b]])
  show ?thesis
    using a sublist_trans[OF a b] c by (auto simp: chunk_step_def covered_def)
qed

lemma chunk_step_covers_old:
  assumes "covered chunks cur w" "trimmed w"
  shows "covered (fst (chunk_step cs ov (chunks, cur) sentence))
                 (snd (chunk_step cs ov (chunks, cur) sentence)) w"
proof (cases "\<exists>c\<in>set chunks. sublist w c")
  case True
  then show ?thesis by (auto simp: chunk_step_def covered_def)
next
  case False
  with assms(1) have w: "sublist w cur" by (simp add: covered_def)
  have 1: "sublist w (strip cur)" by (rule sublist_strip[OF assms(2) w])
  have "sublist cur (cur @ '' '' @ sentence)" by simp
  then have 2: "sublist w (strip (cur @ '' '' @ sentence))"
    by (rule sublist_strip[OF assms(2) sublist_trans[OF w]])
  show ?thesis
    using 1 2 w by (auto simp: chunk_step_def covered_def)
qed

lemma foldl_chunk_step_covers:
  assumes "\<forall>s\<in>S. covered (fst st) (snd st) (strip s)"
  shows "\<forall>s\<in>S \<union> set ss. covered (fst (foldl (chunk_step cs ov) st ss))
                                    (snd (foldl (chunk_step cs ov) st ss)) (strip s)"
  using assms
proof (induction ss arbitrary: st S)
  case Nil
  then show ?case by simp
next
  case (Cons x ss)
  obtain chunks cur where st: "st = (chunks, cur)" by (cases st)
  have "\<forall>s\<in>insert x S. covered (fst (chunk_step cs ov st x)) (snd (chunk_step cs ov st x)) (strip s)"
    using Cons.prems chunk_step_covers_new[of cs ov chunks cur x]
      chunk_step_covers_old[OF _ trimmed_strip, of chunks cur _ cs ov x]
    by (auto simp: st)
  from Cons.IH[OF this] show ?case by simp
qed

lemma chunk_split_covers:
  assumes "s \<in> set (re_split [] content)" "chunk_split content cs ov \<noteq> []"
  shows "\<exists>c\<in>set (chunk_split content cs ov). sublist (strip s) c"
proof -
  obtain chunks cur where
    f: "foldl (chunk_step cs ov) ([], []) (re_split [] content) = (chunks, cur)"
    by (cases "foldl (chunk_step cs ov) ([], []) (re_split [] content)")
  have "\<forall>s\<in>{} \<union> set (re_split [] content).
          covered (fst (foldl (chunk_step cs ov) ([], []) (re_split [] content)))
                  (snd (foldl (chunk_step cs ov) ([], []) (re_split [] content))) (strip s)"
    by (rule foldl_chunk_step_covers) simp
  with assms(1) f have cov: "covered chunks cur (strip s)" by simp
  show ?thesis
  proof (cases "\<exists>c\<in>set chunks. sublist (strip s) c")
    case True
    then show ?thesis by (auto simp: chunk_split_def f)
  next
    case False
    with cov have "sublist (strip s) cur" by (simp add: covered_def)
    then have in_cur: "sublist (strip s) (strip cur)"
      by (rule sublist_strip[OF trimmed_strip])
    show ?thesis
    proof (cases "strip cur = []")
      case True
      with in_cur have "strip s = []" by simp
      moreover from assms(2) obtain c where "c \<in> set (chunk_split content cs ov)"
        by (cases "chunk_split content cs ov") auto
      ultimately show ?thesis by auto
    next
      case False
      with in_cur show ?thesis by (auto simp: chunk_split_def f)
    qed
  qed
qed

lemma chunk_text_covers:
  assumes "s \<in> set (re_split [] content)"
  shows "\<exists>c\<in>set (chunk_text content cs ov). sublist (strip s) c"
proof -
  have "sublist (strip s) content"
    using sublist_trans[OF strip_sublist re_split_sublist[OF assms]] by simp
  then show ?thesis
    using chunk_split_covers[OF assms] by (auto simp: chunk_text_def Let_def)
qed

subsection \<open>The words of the chunks are the words of the text\<close>

lemma loop_inv_init: "loop_inv ov ([], []) []"
  unfolding loop_inv_def seeded_def
  by (rule exI[of _ "[]"], rule exI[of _ "([], [])"]) (simp add: split_words_Nil)

lemma seeded_strip: "seeded ov cur part \<Longrightarrow> seeded ov (strip cur) part"
  by (simp add: seeded_def split_words_strip)

lemma chunk_step_inv:
  assumes "loop_inv ov (chunks, cur) seen"
  shows "loop_inv ov (chunk_step cs ov (chunks, cur) s) (seen @ [s])"
proof -
  from assms obtain parts part where
    ps: "list_all2 (seeded ov) chunks parts" and p: "seeded ov cur part" and
    eq: "concat (map snd parts) @ snd part = concat (map split_words seen)"
    by (auto simp: loop_inv_def)
  show ?thesis
  proof (cases "int (length cur) + int (length s) > cs \<and> cur \<noteq> []")
    case True
    define buf where "buf = snd (chunk_step cs ov (chunks, cur) s)"
    have st: "chunk_step cs ov (chunks, cur) s = (chunks @ [strip cur], buf)"
      using True by (simp add: chunk_step_def buf_def)
    have 1: "list_all2 (seeded ov) (chunks @ [strip cur]) (parts @ [part])"
      using ps seeded_strip[OF p] by (simp add: list_all2_appendI)
    have "\<exists>seed. int (length seed) \<le> max 0 ov \<and>
                 split_words buf = split_words seed @ split_words s"
    proof (cases "ov > 0 \<and> int (length cur) > ov")
      case True
      with \<open>int (length cur) + int (length s) > cs \<and> cur \<noteq> []\<close>
      have "buf = overlap_seed ov cur @ '' '' @ s" by (simp add: chunk_step_def buf_def)
      moreover have "int (length (overlap_seed ov cur)) \<le> max 0 ov"
        using True length_overlap_seed[of ov cur] by simp
      ultimately show ?thesis by (metis split_words_join)
    next
      case False
      with \<open>int (length cur) + int (length s) > cs \<and> cur \<noteq> []\<close>
      have "buf = s" by (auto simp: chunk_step_def buf_def)
      then show ?thesis by (intro exI[of _ "[]"]) (simp add: split_words_Nil)
    qed
    then obtain seed where "seeded ov buf (seed, split_words s)"
      by (auto simp: seeded_def)
    moreover have "concat (map snd (parts @ [part])) @ snd (seed, split_words s)
                   = concat (map split_words (seen @ [s]))"
      using eq by simp
    ultimately show ?thesis
      unfolding loop_inv_def st using 1 by (metis fst_conv snd_conv)
  next
    case False
    note nf = False
    show ?thesis
    proof (cases "cur = []")
      case True
      then have st: "chunk_step cs ov (chunks, cur) s = (chunks, s)"
        by (simp add: chunk_step_def)
      from p True have "snd part = []" by (simp add: seeded_def split_words_Nil)
      with eq have eq': "concat (map snd parts) @ snd ([], split_words s)
                         = concat (map split_words (seen @ [s]))"
        by simp
      have "seeded ov s ([], split_words s)" by (simp add: seeded_def split_words_Nil)
      with ps eq' show ?thesis
        unfolding loop_inv_def st by (metis fst_conv snd_conv)
    next
      case False
      with nf have st: "chunk_step cs ov (chunks, cur) s = (chunks, strip (cur @ '' '' @ s))"
        by (auto simp: chunk_step_def)
      have "seeded ov (strip (cur @ '' '' @ s)) (fst part, snd part @ split_words s)"
        using p
        by (simp add: seeded_def split_words_strip split_words_append_space[OF space_is_space])
      moreover have "concat (map snd parts) @ snd (fst part, snd part @ split_words s)
                     = concat (map split_words (seen @ [s]))"
        using eq by simp
      ultimately show ?thesis
        unfolding loop_inv_def st using ps by (metis fst_conv snd_conv)
    qed
  qed
qed

lemma foldl_chunk_step_inv:
  "loop_inv ov st seen \<Longrightarrow> loop_inv ov (foldl (chunk_step cs ov) st ss) (seen @ ss)"
proof (induction ss arbitrary: st seen)
  case Nil
  then show ?case by simp
next
  case (Cons x ss)
  obtain chunks cur where st: "st = (chunks, cur)" by (cases st)
  from Cons.prems have "loop_inv ov (chunk_step cs ov st x) (seen @ [x])"
    unfolding st by (rule chunk_step_inv)
  from Cons.IH[OF this] show ?case by simp
qed

lemma seeded_whole: "seeded ov content ([], split_words content)"
  by (simp add: seeded_def split_words_Nil)

lemma chunk_split_parts:
  assumes "chunk_split content cs ov \<noteq> []"
  shows "\<exists>parts. list_all2 (seeded ov) (chunk_split content cs ov) parts \<and>
                 concat (map snd parts) = split_words content"
proof -
  obtain chunks cur where
    f: "foldl (chunk_step cs ov) ([], []) (re_split [] content) = (chunks, cur)"
    by (cases "foldl (chunk_step cs ov) ([], []) (re_split [] content)")
  have "loop_inv ov (foldl (chunk_step cs ov) ([], []) (re_split [] content))
          ([] @ re_split [] content)"
    by (rule foldl_chunk_step_inv[OF loop_inv_init])
  then obtain parts part where
    ps: "list_all2 (seeded ov) chunks parts" and p: "seeded ov cur part" and
    eq: "concat (map snd parts) @ snd part = split_words content"
    using split_words_re_split[of "[]" content] by (auto simp: loop_inv_def f)
  show ?thesis
  proof (cases "strip cur = []")
    case True
    then have "split_words cur = []"
      using split_words_strip[of cur] by (simp add: split_words_Nil)
    with p have "snd part = []" by (simp add: seeded_def)
    with eq ps True show ?thesis by (auto simp: chunk_split_def f)
  next
    case False
    have "list_all2 (seeded ov) (chunks @ [strip cur]) (parts @ [part])"
      using ps seeded_strip[OF p] by (simp add: list_all2_appendI)
    moreover have "concat (map snd (parts @ [part])) = split_words content"
      using eq by simp
    moreover have "chunk_split content cs ov = chunks @ [strip cur]"
      using False by (simp add: chunk_split_def f)
    ultimately show ?thesis by metis
  qed
qed

lemma chunk_text_parts:
  "\<exists>parts. list_all2 (seeded ov) (chunk_text content cs ov) parts \<and>
           concat (map snd parts) = split_words content"
proof -
  have whole: "list_all2 (seeded ov) [content] [([], split_words content)] \<and>
               concat (map snd [([]::string, split_words content)]) = split_words content"
    by (simp add: seeded_whole)
  show ?thesis
  proof (cases "int (length content) \<le> cs \<or> chunk_split content cs ov = []")
    case True
    then have "chunk_text content cs ov = [content]" by (auto simp: chunk_text_def)
    with whole show ?thesis by metis
  next
    case False
    then have "chunk_text content cs ov = chunk_split content cs ov"
      by (auto simp: chunk_text_def)
    with chunk_split_parts False show ?thesis by simp
  qed
qed

lemma split_at_first:
  "c \<in> set s \<Longrightarrow>
   s = takeWhile (\<lambda>d. d \<noteq> c) s @ c # drop (Suc (length (takeWhile (\<lambda>d. d \<noteq> c) s))) s"
  by (induction s) auto

section \<open>What the chunker keeps\<close>

text \<open>
  Claim C7, as amended. For every text, target size and overlap, \<open>chunk_text\<close> returns at
  least one chunk; when the split leaves no chunk the text itself is the single chunk;
  every sentence of the split, trimmed of surrounding whitespace, is a contiguous part
  of some chunk; and the chunks can be paired with segments of words such that each
  chunk's words are the words of a seed of at most \<open>overlap\<close> characters followed by
  its segment, and the segments together are the words of the text in order. Content is
  kept up to whitespace, not character by character.
\<close>

theorem chunk_text_keeps_content_up_to_whitespace:
  "chunk_text text chunk_size overlap \<noteq> [] \<and>
   (chunk_split text chunk_size overlap = [] \<longrightarrow> chunk_text text chunk_size overlap = [text]) \<and>
   (\<forall>sentence\<in>set (re_split [] text).
      \<exists>chunk\<in>set (chunk_text text chunk_size overlap). sublist (strip sentence) chunk) \<and>
   (\<exists>parts. list_all2 (seeded overlap) (chunk_text text chunk_size overlap) parts \<and>
            concat (map snd parts) = split_words text)"
proof (intro conjI)
  show "chunk_text text chunk_size overlap \<noteq> []"
    by (simp add: chunk_text_def Let_def)
  show "chunk_split text chunk_size overlap = [] \<longrightarrow> chunk_text text chunk_size overlap = [text]"
    by (simp add: chunk_text_def)
  show "\<forall>sentence\<in>set (re_split [] text).
      \<exists>chunk\<in>set (chunk_text text chunk_size overlap). sublist (strip sentence) chunk"
    using chunk_text_covers by blast
  show "\<exists>parts. list_all2 (seeded overlap) (chunk_text text chunk_size overlap) parts \<and>
            concat (map snd parts) = split_words text"
    by (rule chunk_text_parts)
qed

theorem chunk_text_keeps_content_witness:
  "chunk_split ''     '' 2 0 = [] \<and>
   chunk_text ''     '' 2 0 = [''     ''] \<and>
   ''three four.'' \<in> set (re_split [] ''one two. three four. five six.'') \<and>
   chunk_text ''one two. three four. five six.'' 10 6
     = [''one two.'', ''two. three four.'', ''four. five six.''] \<and>
   (\<exists>chunk\<in>set (chunk_text ''one two. three four. five six.'' 10 6).
      sublist (strip ''three four.'') chunk)"
proof -
  have 1: "chunk_split ''     '' 2 0 = []" by code_simp
  have 2: "''three four.'' \<in> set (re_split [] ''one two. three four. five six.'')"
    by code_simp
  have 3: "chunk_text ''one two. three four. five six.'' 10 6
     = [''one two.'', ''two. three four.'', ''four. five six.'']" by code_simp
  from chunk_text_keeps_content_up_to_whitespace[of "''     ''" 2 0] 1
  have 4: "chunk_text ''     '' 2 0 = [''     '']" by blast
  from chunk_text_keeps_content_up_to_whitespace[of "''one two. three four. five six.''" 10 6] 2
  have 5: "\<exists>chunk\<in>set (chunk_text ''one two. three four. five six.'' 10 6).
      sublist (strip ''three four.'') chunk" by blast
  from 1 2 3 4 5 show ?thesis by blast
qed

text \<open>
  Claim C7 as stated fails: a sentence that ends in a newline is in no chunk, and the
  newline of the text is in no chunk at all.
\<close>

theorem chunk_text_drops_whitespace_counterexample:
  "re_split [] ''Line one\<newline> Line two'' = [''Line one\<newline>'', ''Line two''] \<and>
   chunk_text ''Line one\<newline> Line two'' 10 0 = [''Line one'', ''Line two''] \<and>
   \<not> sublist ''Line one\<newline>'' ''Line one'' \<and>
   \<not> sublist ''Line one\<newline>'' ''Line two'' \<and>
   CHR 0x0A \<in> set ''Line one\<newline> Line two'' \<and>
   CHR 0x0A \<notin> set (concat (chunk_text ''Line one\<newline> Line two'' 10 0))"
  by code_simp

section \<open>The overlap seed\<close>

text \<open>
  Claim C8, as amended. For \<open>overlap > 0\<close>, when a sentence closes a chunk the trimmed
  buffer is appended to the chunks. If the buffer has at most \<open>overlap\<close> characters the
  next buffer is the sentence alone. Otherwise it is a seed, a space and the sentence,
  where the tail is the last \<open>overlap\<close> characters of the untrimmed buffer and the seed
  is what follows the first space of the tail when the tail has a space and does not
  begin with it, and the whole tail otherwise.
\<close>

theorem chunk_step_close_seeds_overlap:
  assumes "0 < overlap"
    and "chunk_size < int (length current_chunk) + int (length sentence)"
    and "current_chunk \<noteq> []"
  shows "\<exists>buffer.
     chunk_step chunk_size overlap (chunks, current_chunk) sentence
       = (chunks @ [strip current_chunk], buffer) \<and>
     (if int (length current_chunk) \<le> overlap then buffer = sentence
      else (\<exists>tail seed. suffix tail current_chunk \<and> int (length tail) = overlap \<and>
              buffer = seed @ '' '' @ sentence \<and>
              (if hd tail \<noteq> CHR '' '' \<and> CHR '' '' \<in> set tail
               then \<exists>w. w \<noteq> [] \<and> CHR '' '' \<notin> set w \<and> tail = w @ CHR '' '' # seed
               else seed = tail)))"
proof (cases "int (length current_chunk) \<le> overlap")
  case True
  with assms show ?thesis by (simp add: chunk_step_def)
next
  case False
  define tail where "tail = drop (length current_chunk - nat overlap) current_chunk"
  define seed where "seed = overlap_seed overlap current_chunk"
  have step: "chunk_step chunk_size overlap (chunks, current_chunk) sentence
       = (chunks @ [strip current_chunk], seed @ '' '' @ sentence)"
    using assms False by (simp add: chunk_step_def seed_def)
  have suf: "suffix tail current_chunk" unfolding tail_def by (rule suffix_drop)
  have len: "int (length tail) = overlap" using False assms(1) by (simp add: tail_def)
  then have ne: "tail \<noteq> []" using assms(1) by auto
  have seed_eq: "seed = (if str_find tail (CHR '' '') > 0
                         then drop (nat (str_find tail (CHR '' '') + 1)) tail else tail)"
    by (simp add: seed_def overlap_seed_def tail_def Let_def)
  have shape: "if hd tail \<noteq> CHR '' '' \<and> CHR '' '' \<in> set tail
               then \<exists>w. w \<noteq> [] \<and> CHR '' '' \<notin> set w \<and> tail = w @ CHR '' '' # seed
               else seed = tail"
  proof (cases "hd tail \<noteq> CHR '' '' \<and> CHR '' '' \<in> set tail")
    case True
    let ?w = "takeWhile (\<lambda>d. d \<noteq> CHR '' '') tail"
    from True ne have wne: "?w \<noteq> []" by (cases tail) auto
    then have pos: "str_find tail (CHR '' '') > 0" using True by (simp add: str_find_def)
    have "seed = drop (Suc (length ?w)) tail"
      using pos True by (simp add: seed_eq str_find_def nat_add_distrib)
    with split_at_first[of "CHR '' ''" tail] True have "tail = ?w @ CHR '' '' # seed" by simp
    moreover have "CHR '' '' \<notin> set ?w" by (auto dest: set_takeWhileD)
    ultimately show ?thesis using True wne by (metis (full_types))
  next
    case False
    have "\<not> str_find tail (CHR '' '') > 0"
    proof (cases "CHR '' '' \<in> set tail")
      case True
      with False ne have "takeWhile (\<lambda>d. d \<noteq> CHR '' '') tail = []" by (cases tail) auto
      then show ?thesis by (simp add: str_find_def)
    next
      case False
      then show ?thesis by (simp add: str_find_def)
    qed
    with False show ?thesis by (simp add: seed_eq)
  qed
  show ?thesis
    using step suf len shape False by (metis (no_types, lifting))
qed

theorem chunk_step_close_seeds_overlap_witness:
  "(0::int) < 6 \<and> (10::int) < int (length ''one two.'') + int (length ''three four.'') \<and>
   ''one two.'' \<noteq> [] \<and>
   chunk_step 10 6 ([], ''one two.'') ''three four.'' = ([''one two.''], ''two. three four.'')"
proof -
  have h1: "(0::int) < 6" by simp
  have h2: "(10::int) < int (length ''one two.'') + int (length ''three four.'')" by simp
  have h3: "''one two.'' \<noteq> []" by simp
  have v: "snd (chunk_step 10 6 ([], ''one two.'') ''three four.'') = ''two. three four.''"
    by code_simp
  from chunk_step_close_seeds_overlap[OF h1 h2 h3, of "[]"] obtain buffer where
    "chunk_step 10 6 ([], ''one two.'') ''three four.'' = ([] @ [strip ''one two.''], buffer)"
    by blast
  moreover have "strip ''one two.'' = ''one two.''" by code_simp
  ultimately show ?thesis using v h1 h2 h3 by simp
qed

text \<open>
  Claim C8 as stated fails: a closed buffer of exactly \<open>overlap\<close> characters seeds
  nothing, and a tail without a space is kept although it begins inside a word.
\<close>

theorem chunk_step_no_seed_counterexample:
  "chunk_step 3 3 ([], ''ab.'') ''cd.'' = ([''ab.''], ''cd.'') \<and>
   spec_overlap_buffer 3 ''ab.'' ''cd.'' = ''ab. cd.'' \<and>
   chunk_text ''ab. cd.'' 3 3 = [''ab.'', ''cd.''] \<and>
   chunk_text ''abcdef. gh.'' 7 3 = [''abcdef.'', ''ef. gh.'']"
  by code_simp

section \<open>The store: auxiliary lemmas\<close>

lemma np_vstack_ok:
  "list_all (\<lambda>v. length v = D) vs \<Longrightarrow> vs \<noteq> [] \<Longrightarrow> np_vstack vs = Inr vs"
  by (cases vs) (auto simp: np_vstack_def list_all_iff)

lemma consistent_load:
  assumes "consistent D m"
  shows "\<exists>m0. load_tables m = (Inr (), m0) \<and>
           memories_cache m0 = Some (memory_table m) \<and>
           chunks_cache m0 = Some (chunk_table m) \<and>
           chunk_embeddings m0 = Some (map embedding (chunk_table m)) \<and>
           memories_path m0 = memories_path m \<and> chunks_path m0 = chunks_path m \<and>
           provider_calls m0 = provider_calls m \<and>
           (memories_cache m \<noteq> None \<longrightarrow> m0 = m)"
proof (cases "memories_cache m")
  case (Some ms)
  with assms show ?thesis
    by (auto simp: consistent_def load_tables_def memory_table_def chunk_table_def table_rows_def
             split: option.splits)
next
  case None
  show ?thesis
  proof (cases "chunks_path m")
    case N2: None
    with None show ?thesis
      by (simp add: load_tables_def memory_table_def chunk_table_def table_rows_def)
  next
    case (Some t)
    show ?thesis
    proof (cases "t = []")
      case True
      with None Some show ?thesis
        by (simp add: load_tables_def memory_table_def chunk_table_def table_rows_def)
    next
      case False
      from assms None Some have "list_all (\<lambda>v. length v = D) (map embedding t)"
        by (simp add: consistent_def row_dims_def table_rows_def list_all_iff)
      with False have "np_vstack (map embedding t) = Inr (map embedding t)"
        by (intro np_vstack_ok) auto
      with None Some False show ?thesis
        by (simp add: load_tables_def memory_table_def chunk_table_def table_rows_def)
    qed
  qed
qed

lemma consistent_dims: "consistent D m \<Longrightarrow> row_dims D (chunk_table m)"
  by (auto simp: consistent_def chunk_table_def table_rows_def split: option.splits)

lemma row_dims_map: "row_dims D rs = list_all (\<lambda>e. length e = D) (map embedding rs)"
  by (simp add: row_dims_def list.pred_map comp_def)

lemma row_dims_append: "row_dims D (xs @ ys) = (row_dims D xs \<and> row_dims D ys)"
  by (simp add: row_dims_def)

lemma chunk_text_nonempty: "chunk_text t cs ov \<noteq> []"
  by (simp add: chunk_text_def Let_def)

lemma embedding_new_chunk_rows:
  "length embeddings = length chunks \<Longrightarrow>
   map embedding (new_chunk_rows now_id chunks embeddings) = embeddings"
proof -
  assume len: "length embeddings = length chunks"
  have "map embedding (new_chunk_rows now_id chunks embeddings)
        = map (\<lambda>p. snd (snd p)) (enumerate 0 (zip chunks embeddings))"
    by (simp add: new_chunk_rows_def case_prod_unfold)
  also have "\<dots> = map snd (map snd (enumerate 0 (zip chunks embeddings)))"
    by (simp only: map_map comp_def)
  also have "\<dots> = map snd (zip chunks embeddings)" by (simp only: map_snd_enumerate)
  also have "\<dots> = embeddings" using len by simp
  finally show ?thesis .
qed

lemma memory_id_new_chunk_rows:
  "c \<in> set (new_chunk_rows now_id chunks embeddings) \<Longrightarrow> memory_id c = now_id"
  by (auto simp: new_chunk_rows_def)

text \<open>save on a consistent store, provider failure\<close>

lemma save_failure:
  assumes "load_tables m = (Inr (), m0)"
  shows "save content now_id now_iso (Inl e) m =
      (Inl e, m0\<lparr>memories_cache := Some (table_rows (memories_cache m0) @
                      [\<lparr>id_col = now_id, content_col = content, created_at_col = now_iso\<rparr>]),
                 provider_calls := provider_calls m0 @
                      [EmbedBatch (chunk_text content CHUNK_SIZE CHUNK_OVERLAP)]\<rparr>)"
  using assms by (simp add: save_def Let_def)

lemma save_success:
  assumes cons: "consistent D m"
    and len: "length embeddings = length (chunk_text content CHUNK_SIZE CHUNK_OVERLAP)"
    and dims: "list_all (\<lambda>e. length e = D) embeddings"
  shows "\<exists>m'. save content now_id now_iso (Inr embeddings) m = (Inr now_id, m') \<and>
     memories_cache m' = Some (memory_table m @
          [\<lparr>id_col = now_id, content_col = content, created_at_col = now_iso\<rparr>]) \<and>
     chunks_cache m' = Some (chunk_table m @
          new_chunk_rows now_id (chunk_text content CHUNK_SIZE CHUNK_OVERLAP) embeddings) \<and>
     chunk_embeddings m' = Some (map embedding (chunk_table m) @ embeddings) \<and>
     memories_path m' = memories_cache m' \<and> chunks_path m' = chunks_cache m' \<and>
     provider_calls m' = provider_calls m @
          [EmbedBatch (chunk_text content CHUNK_SIZE CHUNK_OVERLAP)]"
proof -
  from consistent_load[OF cons] obtain m0 where
    l: "load_tables m = (Inr (), m0)" and
    mc: "memories_cache m0 = Some (memory_table m)" and
    cc: "chunks_cache m0 = Some (chunk_table m)" and
    ce: "chunk_embeddings m0 = Some (map embedding (chunk_table m))" and
    pc: "provider_calls m0 = provider_calls m"
    by blast
  from len have ne: "embeddings \<noteq> []" using chunk_text_nonempty by (metis length_0_conv)
  have v1: "np_vstack embeddings = Inr embeddings" by (rule np_vstack_ok[OF dims ne])
  have "list_all (\<lambda>e. length e = D) (map embedding (chunk_table m) @ embeddings)"
    using consistent_dims[OF cons] dims by (auto simp: row_dims_def list_all_iff)
  then have v2: "np_vstack (map embedding (chunk_table m) @ embeddings)
                 = Inr (map embedding (chunk_table m) @ embeddings)"
    using ne by (intro np_vstack_ok) auto
  show ?thesis
    using l mc cc ce pc v1 v2
    by (simp add: save_def Let_def save_tables_def table_rows_def new_chunk_rows_def)
qed

lemma save_consistent:
  assumes "consistent D m" "provider_contract D (Save content now_id now_iso response)"
  shows "consistent D (snd (save content now_id now_iso response m))"
    and "memories_cache (snd (save content now_id now_iso response m)) \<noteq> None"
proof -
  have "consistent D (snd (save content now_id now_iso response m)) \<and>
        memories_cache (snd (save content now_id now_iso response m)) \<noteq> None"
  proof (cases response)
    case (Inl e)
    from consistent_load[OF assms(1)] obtain m0 where
      l: "load_tables m = (Inr (), m0)" and
      mc: "memories_cache m0 = Some (memory_table m)" and
      cc: "chunks_cache m0 = Some (chunk_table m)" and
      ce: "chunk_embeddings m0 = Some (map embedding (chunk_table m))"
      by blast
    show ?thesis
      using consistent_dims[OF assms(1)] mc cc ce
      by (simp add: Inl save_failure[OF l] consistent_def)
  next
    case (Inr embeddings)
    with assms(2) have len: "length embeddings = length (chunk_text content CHUNK_SIZE CHUNK_OVERLAP)"
      and dims: "list_all (\<lambda>e. length e = D) embeddings" by simp_all
    from save_success[OF assms(1) len dims, of now_id now_iso] obtain m' where
      s: "save content now_id now_iso (Inr embeddings) m = (Inr now_id, m')" and
      mc: "memories_cache m' = Some (memory_table m @
          [\<lparr>id_col = now_id, content_col = content, created_at_col = now_iso\<rparr>])" and
      cc: "chunks_cache m' = Some (chunk_table m @
          new_chunk_rows now_id (chunk_text content CHUNK_SIZE CHUNK_OVERLAP) embeddings)" and
      ce: "chunk_embeddings m' = Some (map embedding (chunk_table m) @ embeddings)"
      by blast
    have "row_dims D (new_chunk_rows now_id (chunk_text content CHUNK_SIZE CHUNK_OVERLAP) embeddings)"
      using dims embedding_new_chunk_rows[OF len, of now_id] by (simp add: row_dims_map)
    then show ?thesis
      using consistent_dims[OF assms(1)] mc cc ce embedding_new_chunk_rows[OF len, of now_id]
      by (simp add: Inr s consistent_def row_dims_append)
  qed
  then show "consistent D (snd (save content now_id now_iso response m))"
    and "memories_cache (snd (save content now_id now_iso response m)) \<noteq> None" by simp_all
qed

lemma delete_present:
  assumes cons: "consistent D m" and ex: "mid \<in> set (map id_col (memory_table m))"
  shows "\<exists>m'. delete mid m = (Inr True, m') \<and>
     memories_cache m' = Some (filter (\<lambda>r. id_col r \<noteq> mid) (memory_table m)) \<and>
     chunks_cache m' = Some (filter (\<lambda>c. memory_id c \<noteq> mid) (chunk_table m)) \<and>
     chunk_embeddings m' = Some (map embedding (filter (\<lambda>c. memory_id c \<noteq> mid) (chunk_table m))) \<and>
     memories_path m' = memories_cache m' \<and> chunks_path m' = chunks_cache m' \<and>
     provider_calls m' = provider_calls m"
proof -
  from consistent_load[OF cons] obtain m0 where
    l: "load_tables m = (Inr (), m0)" and
    mc: "memories_cache m0 = Some (memory_table m)" and
    cc: "chunks_cache m0 = Some (chunk_table m)" and
    pc: "provider_calls m0 = provider_calls m"
    by blast
  let ?rem = "filter (\<lambda>c. memory_id c \<noteq> mid) (chunk_table m)"
  have "list_all (\<lambda>e. length e = D) (map embedding ?rem)"
    using consistent_dims[OF cons] by (auto simp: row_dims_def list_all_iff)
  then have v: "?rem \<noteq> [] \<Longrightarrow> np_vstack (map embedding ?rem) = Inr (map embedding ?rem)"
    by (intro np_vstack_ok) auto
  show ?thesis
  proof (cases "?rem = []")
    case True
    with l mc cc pc ex show ?thesis
      by (simp add: delete_def Let_def save_tables_def)
  next
    case False
    with l mc cc pc ex v[OF False] show ?thesis
      by (simp add: delete_def Let_def save_tables_def)
  qed
qed

lemma delete_absent:
  assumes "load_tables m = (Inr (), m0)"
    and "mid \<notin> set (map id_col (table_rows (memories_cache m0)))"
  shows "delete mid m = (Inr False, m0)"
proof -
  from assms(1) have "memories_cache m0 \<noteq> None"
    by (auto simp: load_tables_def Let_def split: if_splits option.splits sum.splits)
  then obtain ms where ms: "memories_cache m0 = Some ms" by auto
  with assms show ?thesis by (simp add: delete_def table_rows_def)
qed

lemma load_tables_frame:
  assumes "load_tables m = (r, m0)"
  shows "memories_path m0 = memories_path m" "chunks_path m0 = chunks_path m"
    "provider_calls m0 = provider_calls m" "memories_cache m \<noteq> None \<Longrightarrow> m0 = m"
  using assms
  by (auto simp: load_tables_def Let_def split: if_splits option.splits sum.splits)

lemma delete_consistent:
  assumes "consistent D m"
  shows "consistent D (snd (delete mid m)) \<and> memories_cache (snd (delete mid m)) \<noteq> None"
proof (cases "mid \<in> set (map id_col (memory_table m))")
  case True
  from delete_present[OF assms True] obtain m' where
    d: "delete mid m = (Inr True, m')" and
    mc: "memories_cache m' = Some (filter (\<lambda>r. id_col r \<noteq> mid) (memory_table m))" and
    cc: "chunks_cache m' = Some (filter (\<lambda>c. memory_id c \<noteq> mid) (chunk_table m))" and
    ce: "chunk_embeddings m' = Some (map embedding (filter (\<lambda>c. memory_id c \<noteq> mid) (chunk_table m)))"
    by blast
  have "row_dims D (filter (\<lambda>c. memory_id c \<noteq> mid) (chunk_table m))"
    using consistent_dims[OF assms] by (auto simp: row_dims_def list_all_iff)
  with d mc cc ce show ?thesis by (simp add: consistent_def)
next
  case False
  from consistent_load[OF assms] obtain m0 where
    l: "load_tables m = (Inr (), m0)" and
    mc: "memories_cache m0 = Some (memory_table m)" and
    cc: "chunks_cache m0 = Some (chunk_table m)" and
    ce: "chunk_embeddings m0 = Some (map embedding (chunk_table m))"
    by blast
  from False mc have "mid \<notin> set (map id_col (table_rows (memories_cache m0)))"
    by (simp add: table_rows_def)
  from delete_absent[OF l this] have "delete mid m = (Inr False, m0)" .
  with mc cc ce consistent_dims[OF assms] show ?thesis by (simp add: consistent_def)
qed

lemma apply_operation_consistent:
  assumes "consistent D m" "provider_contract D op"
  shows "consistent D (apply_operation op m) \<and> memories_cache (apply_operation op m) \<noteq> None"
proof (cases op)
  case (Save content now_id now_iso response)
  with assms save_consistent[of D m content now_id now_iso response] show ?thesis by simp
next
  case (Delete mid)
  with delete_consistent[OF assms(1), of mid] show ?thesis by simp
qed

lemma run_consistent:
  assumes "consistent D m" "list_all (provider_contract D) ops"
  shows "consistent D (run ops m) \<and> (ops \<noteq> [] \<longrightarrow> memories_cache (run ops m) \<noteq> None)"
  using assms
proof (induction ops arbitrary: m rule: rev_induct)
  case Nil
  then show ?case by (simp add: run_def)
next
  case (snoc op ops)
  then have "consistent D (run ops m)" and "provider_contract D op" by simp_all
  from apply_operation_consistent[OF this] show ?case by (simp add: run_def)
qed

lemma consistent_matrix:
  assumes "consistent D m" "memories_cache m = Some ms"
  shows "\<exists>chunks M. chunks_cache m = Some chunks \<and> chunk_embeddings m = Some M \<and>
           length M = length chunks \<and> (\<forall>i<length chunks. M ! i = embedding (chunks ! i))"
  using assms by (auto simp: consistent_def split: option.splits)

lemma list_max_Max: "xs \<noteq> [] \<Longrightarrow> list_max xs = Max (set xs)"
proof (induction xs rule: list_max.induct)
  case (1 x)
  then show ?case by simp
next
  case (2 x y ys)
  then show ?case by (simp add: max.commute max.left_commute)
next
  case 3
  then show ?case by simp
qed

lemma groupby_max_keys: "map fst (groupby_max rs) = sort (remdups (map fst rs))"
  by (simp add: groupby_max_def comp_def)

lemma groupby_max_distinct: "distinct (map fst (groupby_max rs))"
  by (simp add: groupby_max_keys)

lemma groupby_max_set_keys: "fst ` set (groupby_max rs) = fst ` set rs"
proof -
  have "set (map fst (groupby_max rs)) = set (map fst rs)"
    by (simp add: groupby_max_keys)
  then show ?thesis by simp
qed

lemma groupby_max_value:
  assumes "(k, v) \<in> set (groupby_max rs)"
  shows "v = Max (snd ` {r \<in> set rs. fst r = k})"
proof -
  from assms have k: "k \<in> fst ` set rs" and v: "v = list_max (map snd (filter (\<lambda>r. fst r = k) rs))"
    by (auto simp: groupby_max_def)
  from k have "filter (\<lambda>r. fst r = k) rs \<noteq> []"
    by (auto simp: filter_empty_conv)
  then have "list_max (map snd (filter (\<lambda>r. fst r = k) rs)) = Max (set (map snd (filter (\<lambda>r. fst r = k) rs)))"
    by (intro list_max_Max) simp
  with v show ?thesis by simp
qed

lemma sorts_descending_mset: "sorts_descending srt \<Longrightarrow> mset (srt rs) = mset rs"
  by (simp add: sorts_descending_def)

lemma sorts_descending_set: "sorts_descending srt \<Longrightarrow> set (srt rs) = set rs"
  using sorts_descending_mset[of srt rs] by (metis set_mset_mset)

lemma sorts_descending_sorted:
  "sorts_descending srt \<Longrightarrow> sorted_wrt (\<lambda>a b. snd a \<ge> snd b) (srt rs)"
  by (simp add: sorts_descending_def)

lemma sorts_descending_distinct:
  assumes "sorts_descending srt" "distinct (map fst rs)"
  shows "distinct (map fst (srt rs))"
proof -
  have "mset (map fst (srt rs)) = mset (map fst rs)"
    using sorts_descending_mset[OF assms(1), of rs] by (metis mset_map)
  with assms(2) show ?thesis by (metis mset_eq_imp_distinct_iff)
qed

lemma stable_descending_sorts: "sorts_descending stable_descending"
  unfolding sorts_descending_def stable_descending_def
proof (intro allI conjI)
  fix rs :: "(string \<times> real) list"
  show "mset (sort_key (\<lambda>r. - snd r) rs) = mset rs" by simp
  have "sorted (map (\<lambda>r. - snd r) (sort_key (\<lambda>r. - snd r) rs))" by simp
  then show "sorted_wrt (\<lambda>a b. snd a \<ge> snd b) (sort_key (\<lambda>r. - snd r) rs)"
    by (simp add: sorted_map)
qed

lemma reversing_descending_sorts: "sorts_descending reversing_descending"
  unfolding sorts_descending_def reversing_descending_def
proof (intro allI conjI)
  fix rs :: "(string \<times> real) list"
  show "mset (rev (sort_key snd rs)) = mset rs" by simp
  have "sorted (map snd (sort_key snd rs))" by simp
  then have "sorted_wrt (\<lambda>a b. snd a \<le> snd b) (sort_key snd rs)"
    by (simp add: sorted_map)
  then show "sorted_wrt (\<lambda>a b. snd a \<ge> snd b) (rev (sort_key snd rs))"
    by (simp add: sorted_wrt_rev)
qed

lemma best_per_memory_distinct:
  "sorts_descending srt \<Longrightarrow> distinct (map fst (best_per_memory srt ids sims))"
  unfolding best_per_memory_def by (rule sorts_descending_distinct[OF _ groupby_max_distinct])

lemma best_per_memory_keys:
  "sorts_descending srt \<Longrightarrow>
   fst ` set (best_per_memory srt ids sims) = fst ` set (zip ids sims)"
  by (simp add: best_per_memory_def sorts_descending_set groupby_max_set_keys)

lemma best_per_memory_value:
  "sorts_descending srt \<Longrightarrow> (k, v) \<in> set (best_per_memory srt ids sims) \<Longrightarrow>
   v = Max (snd ` {r \<in> set (zip ids sims). fst r = k})"
  by (simp add: best_per_memory_def sorts_descending_set groupby_max_value)

lemma best_per_memory_sorted:
  "sorts_descending srt \<Longrightarrow>
   sorted_wrt (\<lambda>a b. snd a \<ge> snd b) (best_per_memory srt ids sims)"
  by (simp add: best_per_memory_def sorts_descending_sorted)

lemma search_walk_prefix:
  assumes "search_walk memories threshold min_results rows acc = Inr res"
  shows "\<exists>k\<le>length rows. map hit res = map hit acc @ take k rows \<and>
           (\<forall>i<k. snd (rows ! i) \<ge> threshold \<or> int (length acc + i) < min_results) \<and>
           (k < length rows \<longrightarrow>
              \<not> (snd (rows ! k) \<ge> threshold \<or> int (length acc + k) < min_results))"
  using assms
proof (induction memories threshold min_results rows acc rule: search_walk.induct)
  case (1 memories threshold min_results results)
  then show ?case by simp
next
  case (2 memories threshold min_results mid sim rest results)
  show ?case
  proof (cases "sim \<ge> threshold \<or> int (length results) < min_results")
    case False
    with "2.prems" have "res = results" by simp
    with False show ?thesis by (intro exI[of _ 0]) simp
  next
    case True
    with "2.prems" obtain memory where
      f: "find (\<lambda>r. id_col r = mid) memories = Some memory" and
      w: "search_walk memories threshold min_results rest
            (results @ [\<lparr>result_id = mid, result_content = content_col memory,
                         similarity = sim, result_created_at = created_at_col memory\<rparr>]) = Inr res"
      by (auto split: option.splits)
    from "2.IH"[OF True f w] obtain k where
      k: "k \<le> length rest" and
      m: "map hit res = map hit (results @ [\<lparr>result_id = mid, result_content = content_col memory,
                         similarity = sim, result_created_at = created_at_col memory\<rparr>]) @ take k rest" and
      a: "\<forall>i<k. snd (rest ! i) \<ge> threshold \<or> int (length results + 1 + i) < min_results" and
      b: "k < length rest \<longrightarrow>
              \<not> (snd (rest ! k) \<ge> threshold \<or> int (length results + 1 + k) < min_results)"
      by auto
    have a': "\<forall>i<Suc k. snd (((mid, sim) # rest) ! i) \<ge> threshold \<or> int (length results + i) < min_results"
    proof (intro allI impI)
      fix i assume "i < Suc k"
      show "snd (((mid, sim) # rest) ! i) \<ge> threshold \<or> int (length results + i) < min_results"
      proof (cases i)
        case 0
        with True show ?thesis by simp
      next
        case (Suc j)
        with \<open>i < Suc k\<close> a show ?thesis by auto
      qed
    qed
    have hr: "hit \<lparr>result_id = mid, result_content = content_col memory,
                   similarity = sim, result_created_at = created_at_col memory\<rparr> = (mid, sim)"
      by (simp add: hit_def)
    show ?thesis
      using k m a' b hr by (intro exI[of _ "Suc k"]) simp
  qed
qed

lemma search_walk_succeeds:
  assumes "fst ` set rows \<subseteq> id_col ` set memories"
  shows "\<exists>res. search_walk memories threshold min_results rows acc = Inr res"
  using assms
proof (induction memories threshold min_results rows acc rule: search_walk.induct)
  case (1 memories threshold min_results results)
  then show ?case by simp
next
  case (2 memories threshold min_results mid sim rest results)
  show ?case
  proof (cases "sim \<ge> threshold \<or> int (length results) < min_results")
    case False
    then show ?thesis by simp
  next
    case True
    from "2.prems" have "mid \<in> id_col ` set memories" by simp
    then obtain memory where f: "find (\<lambda>r. id_col r = mid) memories = Some memory"
      by (cases "find (\<lambda>r. id_col r = mid) memories") (auto simp: find_None_iff)
    from "2.prems" have "fst ` set rest \<subseteq> id_col ` set memories" by simp
    from "2.IH"[OF True f this] True f show ?thesis by simp
  qed
qed

lemma matvec_ok:
  "list_all (\<lambda>r. length r = length q) M \<Longrightarrow> matvec M q = Inr (map (\<lambda>r. dot r q) M)"
  by (simp add: matvec_def)

lemma search_consistent:
  assumes cons: "consistent D m" and ne: "chunk_table m \<noteq> []" and lq: "length q = D"
  shows "fst (search srt query threshold min_results (Inr q) m)
         = search_walk (memory_table m) threshold min_results (ranking srt (chunk_table m) q) []"
proof -
  from consistent_load[OF cons] obtain m0 where
    l: "load_tables m = (Inr (), m0)" and
    mc: "memories_cache m0 = Some (memory_table m)" and
    cc: "chunks_cache m0 = Some (chunk_table m)" and
    ce: "chunk_embeddings m0 = Some (map embedding (chunk_table m))"
    by blast
  have "list_all (\<lambda>r. length r = length q) (map embedding (chunk_table m))"
    using consistent_dims[OF cons] lq by (simp add: row_dims_map)
  then have mv: "matvec (map embedding (chunk_table m)) q
                 = Inr (map (\<lambda>c. dot (embedding c) q) (chunk_table m))"
    by (simp add: matvec_ok comp_def)
  show ?thesis
    using l mc cc ce ne mv
    by (simp add: search_def Let_def ranking_def table_rows_def)
qed

lemma ranking_zip:
  "zip (map memory_id chunks) (map (\<lambda>c. dot (embedding c) q) chunks)
   = map (\<lambda>c. (memory_id c, dot (embedding c) q)) chunks"
  by (induction chunks) auto

lemma ranking_keys:
  "sorts_descending srt \<Longrightarrow> fst ` set (ranking srt chunks q) = memory_id ` set chunks"
  by (auto simp: ranking_def best_per_memory_keys ranking_zip image_iff)

lemma ranking_value:
  assumes "sorts_descending srt" "(k, v) \<in> set (ranking srt chunks q)"
  shows "v = best_score chunks q k"
proof -
  have img: "snd ` {r \<in> set (map (\<lambda>c. (memory_id c, dot (embedding c) q)) chunks). fst r = k}
        = (\<lambda>c. dot (embedding c) q) ` {c \<in> set chunks. memory_id c = k}"
    by (auto simp: image_iff)
  from assms(2) have "(k, v) \<in> set (best_per_memory srt (map memory_id chunks)
                                   (map (\<lambda>c. dot (embedding c) q) chunks))"
    by (simp add: ranking_def)
  then have "v = Max (snd ` {r \<in> set (zip (map memory_id chunks)
                                   (map (\<lambda>c. dot (embedding c) q) chunks)). fst r = k})"
    by (rule best_per_memory_value[OF assms(1)])
  then show ?thesis
    unfolding ranking_zip img best_score_def .
qed

lemma ranking_descending:
  "sorts_descending srt \<Longrightarrow> sorted_wrt (\<lambda>a b. snd a \<ge> snd b) (ranking srt chunks q)"
  by (simp add: ranking_def best_per_memory_sorted)

lemma ranking_distinct: "sorts_descending srt \<Longrightarrow> distinct (map fst (ranking srt chunks q))"
  by (simp add: ranking_def best_per_memory_distinct)

lemma search_result_shape:
  assumes srt: "sorts_descending srt"
    and cons: "consistent D m" and ne: "chunk_table m \<noteq> []"
    and ref: "memory_id ` set (chunk_table m) \<subseteq> id_col ` set (memory_table m)"
    and lq: "length q = D"
  shows "\<exists>results. fst (search srt query threshold min_results (Inr q) m) = Inr results \<and>
     length results \<le> length (ranking srt (chunk_table m) q) \<and>
     map hit results = take (length results) (ranking srt (chunk_table m) q) \<and>
     (\<forall>i<length results.
        snd (ranking srt (chunk_table m) q ! i) \<ge> threshold \<or> int i < min_results) \<and>
     (length results < length (ranking srt (chunk_table m) q) \<longrightarrow>
        \<not> (snd (ranking srt (chunk_table m) q ! length results) \<ge> threshold
           \<or> int (length results) < min_results))"
proof -
  let ?rk = "ranking srt (chunk_table m) q"
  have "fst ` set ?rk \<subseteq> id_col ` set (memory_table m)"
    using ref by (simp add: ranking_keys[OF srt])
  from search_walk_succeeds[OF this, of threshold min_results "[]"] obtain results where
    w: "search_walk (memory_table m) threshold min_results ?rk [] = Inr results" by blast
  from search_walk_prefix[OF w] obtain k where
    k: "k \<le> length ?rk" and m: "map hit results = take k ?rk" and
    a: "\<forall>i<k. snd (?rk ! i) \<ge> threshold \<or> int i < min_results" and
    b: "k < length ?rk \<longrightarrow> \<not> (snd (?rk ! k) \<ge> threshold \<or> int k < min_results)"
    by auto
  from m k have "length results = k"
    by (metis length_map length_take min.absorb2)
  with k m a b w search_consistent[OF cons ne lq, of srt query threshold min_results]
  show ?thesis by auto
qed

text \<open>
  Rows with distinct keys \<open>a\<close>, \<open>b\<close>, \<open>c\<close>, in descending order of a score that ranks
  \<open>a\<close> above \<open>b\<close> above \<open>c\<close>, are in that order.
\<close>

lemma ranked_three:
  fixes f :: "'k \<Rightarrow> real"
  assumes d: "distinct (map fst rows)" and ks: "fst ` set rows = {a, b, c}"
    and v: "\<forall>r\<in>set rows. snd r = f (fst r)"
    and s: "sorted_wrt (\<lambda>x y. snd x \<ge> snd y) rows"
    and ab: "f a > f b" and bc: "f b > f c"
  shows "map fst rows = [a, b, c]"
proof -
  from ab bc have ne: "a \<noteq> b" "b \<noteq> c" "a \<noteq> c" by auto
  have "card (set (map fst rows)) = length (map fst rows)"
    using d by (rule distinct_card)
  moreover have "card (set (map fst rows)) = 3" using ks ne by simp
  ultimately have "length rows = 3" by simp
  then obtain r0 r1 r2 where rows: "rows = [r0, r1, r2]"
    by (auto simp: numeral_3_eq_3 length_Suc_conv)
  from v rows have v0: "snd r0 = f (fst r0)" and v1: "snd r1 = f (fst r1)"
    and v2: "snd r2 = f (fst r2)" by simp_all
  from s rows v0 v1 v2 have o: "f (fst r0) \<ge> f (fst r1)" "f (fst r1) \<ge> f (fst r2)"
    by simp_all
  from ks rows have set3: "{fst r0, fst r1, fst r2} = {a, b, c}" by simp
  from d rows have dk: "fst r0 \<noteq> fst r1" "fst r1 \<noteq> fst r2" "fst r0 \<noteq> fst r2" by simp_all
  from set3 have m0: "fst r0 \<in> {a, b, c}" and m1: "fst r1 \<in> {a, b, c}"
    and m2: "fst r2 \<in> {a, b, c}" by auto
  have "fst r0 = a \<and> fst r1 = b \<and> fst r2 = c"
    using m0 m1 m2 dk o ab bc by auto
  with rows show ?thesis by simp
qed

lemma load_tables_tables:
  assumes "load_tables m = (Inr (), m0)"
  shows "memories_cache m0 = Some (memory_table m)" "memory_table m0 = memory_table m"
    "chunk_table m0 = chunk_table m"
  using assms
  by (auto simp: load_tables_def Let_def memory_table_def chunk_table_def table_rows_def
           split: if_splits option.splits sum.splits)

section \<open>The embedding matrix\<close>

text \<open>
  Claim C1. From a consistent store, after any non-empty sequence of \<open>save\<close> and \<open>delete\<close>
  calls (failed ones included) in which the provider keeps its contract, the embedding
  matrix has as many rows as the chunk table and row \<open>i\<close> of the matrix is the embedding
  stored in chunk row \<open>i\<close>.
\<close>

theorem embedding_matrix_invariant:
  assumes "consistent D m" and "list_all (provider_contract D) ops" and "ops \<noteq> []"
  shows "\<exists>chunks M. chunks_cache (run ops m) = Some chunks \<and>
           chunk_embeddings (run ops m) = Some M \<and>
           length M = length chunks \<and>
           (\<forall>i<length chunks. M ! i = embedding (chunks ! i))"
proof -
  from run_consistent[OF assms(1,2)] assms(3)
  have c: "consistent D (run ops m)" and "memories_cache (run ops m) \<noteq> None" by simp_all
  then obtain ms where "memories_cache (run ops m) = Some ms" by auto
  from consistent_matrix[OF c this] show ?thesis .
qed

theorem embedding_matrix_invariant_witness:
  "consistent 2 (init None None) \<and> list_all (provider_contract 2) example_ops \<and>
   example_ops \<noteq> [] \<and>
   map embedding (table_rows (chunks_cache (run example_ops (init None None)))) = [[0.5, 0.5]] \<and>
   (\<exists>chunks M. chunks_cache (run example_ops (init None None)) = Some chunks \<and>
           chunk_embeddings (run example_ops (init None None)) = Some M \<and>
           length M = length chunks \<and>
           (\<forall>i<length chunks. M ! i = embedding (chunks ! i)))"
proof -
  have h1: "consistent 2 (init None None)" by code_simp
  have h2: "list_all (provider_contract 2) example_ops" by code_simp
  have h3: "example_ops \<noteq> []" by code_simp
  have v: "map embedding (table_rows (chunks_cache (run example_ops (init None None)))) = [[0.5, 0.5]]"
    by code_simp
  from embedding_matrix_invariant[OF h1 h2 h3] h1 h2 h3 v show ?thesis by (intro conjI)
qed

section \<open>Deleting\<close>

text \<open>
  Claim C5. On a consistent store, \<open>delete\<close> of an id that a memory row has returns
  \<open>True\<close>; the memory table and the chunk table lose exactly the rows of that id, the
  rows of every other id stay as they were and in their order, the embedding matrix is
  the embedding column of the surviving chunk rows, and both files hold the new tables.
\<close>

theorem delete_existing_id:
  assumes "consistent D m" and "mid \<in> set (map id_col (memory_table m))"
  shows "\<exists>m'. delete mid m = (Inr True, m') \<and>
     memory_table m' = filter (\<lambda>r. id_col r \<noteq> mid) (memory_table m) \<and>
     chunk_table m' = filter (\<lambda>c. memory_id c \<noteq> mid) (chunk_table m) \<and>
     chunk_embeddings m' = Some (map embedding (chunk_table m')) \<and>
     memories_path m' = Some (memory_table m') \<and> chunks_path m' = Some (chunk_table m') \<and>
     mid \<notin> set (map id_col (memory_table m')) \<and>
     mid \<notin> set (map memory_id (chunk_table m')) \<and>
     (\<forall>k. k \<noteq> mid \<longrightarrow>
        filter (\<lambda>r. id_col r = k) (memory_table m') = filter (\<lambda>r. id_col r = k) (memory_table m) \<and>
        filter (\<lambda>c. memory_id c = k) (chunk_table m') = filter (\<lambda>c. memory_id c = k) (chunk_table m))"
proof -
  from delete_present[OF assms] obtain m' where
    d: "delete mid m = (Inr True, m')" and
    mc: "memories_cache m' = Some (filter (\<lambda>r. id_col r \<noteq> mid) (memory_table m))" and
    cc: "chunks_cache m' = Some (filter (\<lambda>c. memory_id c \<noteq> mid) (chunk_table m))" and
    ce: "chunk_embeddings m' = Some (map embedding (filter (\<lambda>c. memory_id c \<noteq> mid) (chunk_table m)))" and
    mp: "memories_path m' = memories_cache m'" and cp: "chunks_path m' = chunks_cache m'"
    by blast
  have mt: "memory_table m' = filter (\<lambda>r. id_col r \<noteq> mid) (memory_table m)"
    using mc by (simp add: memory_table_def)
  have ct: "chunk_table m' = filter (\<lambda>c. memory_id c \<noteq> mid) (chunk_table m)"
    using mc cc by (simp add: chunk_table_def table_rows_def)
  have others: "\<forall>k. k \<noteq> mid \<longrightarrow>
        filter (\<lambda>r. id_col r = k) (memory_table m') = filter (\<lambda>r. id_col r = k) (memory_table m) \<and>
        filter (\<lambda>c. memory_id c = k) (chunk_table m') = filter (\<lambda>c. memory_id c = k) (chunk_table m)"
    unfolding mt ct by (auto intro: filter_cong)
  have gone: "mid \<notin> set (map id_col (memory_table m'))" "mid \<notin> set (map memory_id (chunk_table m'))"
    unfolding mt ct by auto
  show ?thesis
    using d mt ct ce mc cc mp cp others gone
    by (intro exI[of _ m']) simp
qed

theorem delete_existing_id_witness:
  "consistent 1 example_abc \<and> ''B'' \<in> set (map id_col (memory_table example_abc)) \<and>
   fst (delete ''B'' example_abc) = Inr True \<and>
   map id_col (memory_table (snd (delete ''B'' example_abc))) = [''C'', ''A''] \<and>
   map memory_id (chunk_table (snd (delete ''B'' example_abc))) = [''C'', ''A''] \<and>
   chunk_embeddings (snd (delete ''B'' example_abc)) = Some [[0.1], [0.9]]"
proof -
  have h1: "consistent 1 example_abc" by code_simp
  have h2: "''B'' \<in> set (map id_col (memory_table example_abc))" by code_simp
  have t1: "filter (\<lambda>r. id_col r \<noteq> ''B'') (memory_table example_abc)
            = [\<lparr>id_col = ''C'', content_col = ''gamma'', created_at_col = ''t1''\<rparr>,
               \<lparr>id_col = ''A'', content_col = ''alpha'', created_at_col = ''t2''\<rparr>]"
    by code_simp
  have t2: "filter (\<lambda>c. memory_id c \<noteq> ''B'') (chunk_table example_abc)
            = [\<lparr>memory_id = ''C'', chunk_index = 0, chunk_text_col = ''gamma'', embedding = [0.1]\<rparr>,
               \<lparr>memory_id = ''A'', chunk_index = 0, chunk_text_col = ''alpha'', embedding = [0.9]\<rparr>]"
    by code_simp
  from delete_existing_id[OF h1 h2] obtain m' where
    d: "delete ''B'' example_abc = (Inr True, m')" and
    mt: "memory_table m' = filter (\<lambda>r. id_col r \<noteq> ''B'') (memory_table example_abc)" and
    ct: "chunk_table m' = filter (\<lambda>c. memory_id c \<noteq> ''B'') (chunk_table example_abc)" and
    ce: "chunk_embeddings m' = Some (map embedding (chunk_table m'))"
    by (elim exE conjE)
  from h1 h2 d mt ct ce show ?thesis
    unfolding t1 t2 by simp
qed

text \<open>
  Claim C6. When the tables load and no memory row has the id, \<open>delete\<close> returns
  \<open>False\<close> without raising; the manager is the one \<open>_load\<close> leaves: both files, both
  tables and the provider trace are as before, and a manager that had loaded already is
  unchanged altogether, its embedding matrix included.
\<close>

theorem delete_unknown_id:
  assumes "load_tables m = (Inr (), m0)" and "mid \<notin> set (map id_col (memory_table m))"
  shows "delete mid m = (Inr False, m0) \<and>
         memories_path m0 = memories_path m \<and> chunks_path m0 = chunks_path m \<and>
         memory_table m0 = memory_table m \<and> chunk_table m0 = chunk_table m \<and>
         provider_calls m0 = provider_calls m \<and>
         (memories_cache m \<noteq> None \<longrightarrow> m0 = m)"
proof -
  from load_tables_tables(1)[OF assms(1)] assms(2)
  have "mid \<notin> set (map id_col (table_rows (memories_cache m0)))"
    by (simp add: table_rows_def)
  from delete_absent[OF assms(1) this] load_tables_frame[OF assms(1)]
    load_tables_tables(2,3)[OF assms(1)]
  show ?thesis by simp
qed

theorem delete_unknown_id_witness:
  "load_tables example_loaded = (Inr (), example_loaded) \<and>
   ''Z'' \<notin> set (map id_col (memory_table example_loaded)) \<and>
   memories_cache example_loaded \<noteq> None \<and>
   delete ''Z'' example_loaded = (Inr False, example_loaded)"
proof -
  have h1: "load_tables example_loaded = (Inr (), example_loaded)" by code_simp
  have h2: "''Z'' \<notin> set (map id_col (memory_table example_loaded))" by code_simp
  have h3: "memories_cache example_loaded \<noteq> None" by code_simp
  from delete_unknown_id[OF h1 h2] h1 h2 h3 show ?thesis by (intro conjI) simp_all
qed

section \<open>A failing provider\<close>

text \<open>
  Claim C4, as amended. When the provider call inside \<open>save\<close> fails, the error is the
  result of \<open>save\<close>, neither file is written, and the chunk table and the embedding
  matrix are those of the loaded store; the cached memory table, however, keeps the row
  appended before the call: the cache is not discarded.
\<close>

theorem save_provider_failure:
  assumes "load_tables m = (Inr (), m0)"
  shows "\<exists>m'. save content now_id now_iso (Inl e) m = (Inl e, m') \<and>
     memories_path m' = memories_path m \<and> chunks_path m' = chunks_path m \<and>
     chunk_table m' = chunk_table m \<and> chunk_embeddings m' = chunk_embeddings m0 \<and>
     memory_table m' = memory_table m @
        [\<lparr>id_col = now_id, content_col = content, created_at_col = now_iso\<rparr>]"
proof -
  let ?m' = "m0\<lparr>memories_cache := Some (table_rows (memories_cache m0) @
                      [\<lparr>id_col = now_id, content_col = content, created_at_col = now_iso\<rparr>]),
                 provider_calls := provider_calls m0 @
                      [EmbedBatch (chunk_text content CHUNK_SIZE CHUNK_OVERLAP)]\<rparr>"
  have s: "save content now_id now_iso (Inl e) m = (Inl e, ?m')"
    by (rule save_failure[OF assms])
  have mc: "memories_cache m0 = Some (memory_table m)"
    by (rule load_tables_tables(1)[OF assms])
  have "chunk_table ?m' = chunk_table m0"
    using mc by (simp add: chunk_table_def)
  then have ct: "chunk_table ?m' = chunk_table m"
    using load_tables_tables(3)[OF assms] by simp
  have mt: "memory_table ?m' = memory_table m @
        [\<lparr>id_col = now_id, content_col = content, created_at_col = now_iso\<rparr>]"
    using mc by (simp add: memory_table_def table_rows_def)
  show ?thesis
    using s ct mt load_tables_frame(1,2)[OF assms]
    by (intro exI[of _ ?m']) simp
qed

theorem save_provider_failure_witness:
  "load_tables example_abc = (Inr (), example_loaded) \<and>
   fst (save ''delta'' ''D'' ''t4'' (Inl EmbeddingProviderError) example_abc) = Inl EmbeddingProviderError \<and>
   chunks_path (snd (save ''delta'' ''D'' ''t4'' (Inl EmbeddingProviderError) example_abc))
     = chunks_path example_abc \<and>
   memories_path (snd (save ''delta'' ''D'' ''t4'' (Inl EmbeddingProviderError) example_abc))
     = memories_path example_abc \<and>
   map id_col (memory_table (snd (save ''delta'' ''D'' ''t4'' (Inl EmbeddingProviderError) example_abc)))
     = [''C'', ''A'', ''B'', ''D'']"
proof -
  have h: "load_tables example_abc = (Inr (), example_loaded)" by code_simp
  have t: "map id_col (memory_table example_abc) = [''C'', ''A'', ''B'']" by code_simp
  from save_provider_failure[OF h, of "''delta''" "''D''" "''t4''" EmbeddingProviderError]
  obtain m' where
    s: "save ''delta'' ''D'' ''t4'' (Inl EmbeddingProviderError) example_abc
        = (Inl EmbeddingProviderError, m')" and
    mp: "memories_path m' = memories_path example_abc" and
    cp: "chunks_path m' = chunks_path example_abc" and
    mt: "memory_table m' = memory_table example_abc @
        [\<lparr>id_col = ''D'', content_col = ''delta'', created_at_col = ''t4''\<rparr>]"
    by (elim exE conjE)
  from h s mp cp mt t show ?thesis by simp
qed

text \<open>
  Claim C4 as stated fails: after a failed \<open>save\<close> on an empty store, \<open>get_all\<close> returns
  the memory that was never persisted, and the next successful \<open>save\<close> writes it to the
  memories file without any chunk.
\<close>

theorem save_failure_leaves_row_counterexample:
  "fst (save ''x'' ''X'' ''t1'' (Inl EmbeddingProviderError) (init None None))
     = Inl EmbeddingProviderError \<and>
   memories_path (snd (save ''x'' ''X'' ''t1'' (Inl EmbeddingProviderError) (init None None))) = None \<and>
   fst (get_all (init None None)) = Inr [] \<and>
   fst (get_all (snd (save ''x'' ''X'' ''t1'' (Inl EmbeddingProviderError) (init None None))))
     = Inr [\<lparr>id_col = ''X'', content_col = ''x'', created_at_col = ''t1''\<rparr>] \<and>
   map id_col (table_rows (memories_path
      (run [Save ''x'' ''X'' ''t1'' (Inl EmbeddingProviderError),
            Save ''y'' ''Y'' ''t2'' (Inr [[1]])] (init None None)))) = [''X'', ''Y''] \<and>
   map memory_id (table_rows (chunks_path
      (run [Save ''x'' ''X'' ''t1'' (Inl EmbeddingProviderError),
            Save ''y'' ''Y'' ''t2'' (Inr [[1]])] (init None None)))) = [''Y'']"
  by code_simp

section \<open>Similarity search\<close>

text \<open>
  Claim C2. Let the sort be any function that permutes rows into descending order of
  similarity, the store consistent with at least one chunk, every chunk the chunk of a
  stored memory, and the query embedding of the store's dimension. Then \<open>search\<close>
  returns a list, and the rows it walks are these: one row per memory that has chunks,
  carrying the memory's best-chunk score, in descending order of that score. The result
  is a prefix of these rows, in order; the memory at position \<open>i\<close> is in the result
  exactly when its score is at least the threshold or fewer than \<open>min_results\<close> memories
  have been included before it, so the walk stops at the first memory that fails both.
  In particular, for a store whose memories with chunks are \<open>a\<close>, \<open>b\<close>, \<open>c\<close> with best
  scores 0.9, 0.5 and 0.1, the threshold 0.3 and \<open>min_results\<close> 3 give \<open>a, b, c\<close>.
\<close>

theorem search_walks_ranked_memories:
  assumes "sorts_descending sort_values"
    and "consistent D m" and "chunk_table m \<noteq> []"
    and "memory_id ` set (chunk_table m) \<subseteq> id_col ` set (memory_table m)"
    and "length q = D"
  shows "\<exists>results rows.
     fst (search sort_values query threshold min_results (Inr q) m) = Inr results \<and>
     distinct (map fst rows) \<and>
     fst ` set rows = memory_id ` set (chunk_table m) \<and>
     (\<forall>r\<in>set rows. snd r = best_score (chunk_table m) q (fst r)) \<and>
     sorted_wrt (\<lambda>a b. snd a \<ge> snd b) rows \<and>
     map hit results = take (length results) rows \<and>
     (\<forall>i<length rows.
        i < length results \<longleftrightarrow>
          (snd (rows ! i) \<ge> threshold \<or> int (min i (length results)) < min_results)) \<and>
     (threshold = 0.3 \<and> min_results = 3 \<and>
      memory_id ` set (chunk_table m) = {a, b, c} \<and>
      best_score (chunk_table m) q a = 0.9 \<and>
      best_score (chunk_table m) q b = 0.5 \<and>
      best_score (chunk_table m) q c = 0.1
        \<longrightarrow> map result_id results = [a, b, c])"
proof -
  let ?rk = "ranking sort_values (chunk_table m) q"
  from search_result_shape[OF assms, of query threshold min_results] obtain results where
    s: "fst (search sort_values query threshold min_results (Inr q) m) = Inr results" and
    le: "length results \<le> length ?rk" and
    pre: "map hit results = take (length results) ?rk" and
    inc: "\<forall>i<length results. snd (?rk ! i) \<ge> threshold \<or> int i < min_results" and
    stop: "length results < length ?rk \<longrightarrow>
        \<not> (snd (?rk ! length results) \<ge> threshold \<or> int (length results) < min_results)"
    by blast
  have dist: "distinct (map fst ?rk)" by (rule ranking_distinct[OF assms(1)])
  have keys: "fst ` set ?rk = memory_id ` set (chunk_table m)"
    by (rule ranking_keys[OF assms(1)])
  have vals: "\<forall>r\<in>set ?rk. snd r = best_score (chunk_table m) q (fst r)"
  proof
    fix r assume "r \<in> set ?rk"
    then have "(fst r, snd r) \<in> set ?rk" by simp
    then show "snd r = best_score (chunk_table m) q (fst r)"
      by (rule ranking_value[OF assms(1)])
  qed
  have desc: "sorted_wrt (\<lambda>a b. snd a \<ge> snd b) ?rk"
    by (rule ranking_descending[OF assms(1)])
  have iff: "\<forall>i<length ?rk. i < length results \<longleftrightarrow>
          (snd (?rk ! i) \<ge> threshold \<or> int (min i (length results)) < min_results)"
  proof (intro allI impI)
    fix i assume i: "i < length ?rk"
    show "i < length results \<longleftrightarrow>
          (snd (?rk ! i) \<ge> threshold \<or> int (min i (length results)) < min_results)"
    proof (cases "i < length results")
      case True
      with inc show ?thesis by (simp add: min_def)
    next
      case False
      then have ge: "length results \<le> i" by simp
      with i have lt: "length results < length ?rk" by simp
      with stop have n1: "\<not> snd (?rk ! length results) \<ge> threshold"
        and n2: "\<not> int (length results) < min_results" by simp_all
      have "snd (?rk ! i) \<le> snd (?rk ! length results)"
      proof (cases "i = length results")
        case True
        then show ?thesis by simp
      next
        case False
        with ge have "length results < i" by simp
        from sorted_wrt_nth_less[OF desc this i] show ?thesis .
      qed
      with n1 n2 ge False show ?thesis by (simp add: min_def)
    qed
  qed
  have ex: "threshold = 0.3 \<and> min_results = 3 \<and>
      memory_id ` set (chunk_table m) = {a, b, c} \<and>
      best_score (chunk_table m) q a = 0.9 \<and>
      best_score (chunk_table m) q b = 0.5 \<and>
      best_score (chunk_table m) q c = 0.1
        \<longrightarrow> map result_id results = [a, b, c]"
  proof
    assume h: "threshold = 0.3 \<and> min_results = 3 \<and>
      memory_id ` set (chunk_table m) = {a, b, c} \<and>
      best_score (chunk_table m) q a = 0.9 \<and>
      best_score (chunk_table m) q b = 0.5 \<and>
      best_score (chunk_table m) q c = 0.1"
    have order: "map fst ?rk = [a, b, c]"
    proof (rule ranked_three[OF dist _ vals desc])
      show "fst ` set ?rk = {a, b, c}" using keys h by simp
      show "best_score (chunk_table m) q b < best_score (chunk_table m) q a" using h by simp
      show "best_score (chunk_table m) q c < best_score (chunk_table m) q b" using h by simp
    qed
    then have len: "length ?rk = 3" by (metis length_map length_Cons list.size(3) numeral_3_eq_3)
    from order len obtain r0 r1 r2 where rk: "?rk = [r0, r1, r2]"
      and k: "fst r0 = a" "fst r1 = b" "fst r2 = c"
      by (auto simp: numeral_3_eq_3 length_Suc_conv)
    from vals rk k h have sc: "snd r0 = 0.9" "snd r1 = 0.5" "snd r2 = 0.1" by simp_all
    have "length results = 3"
    proof (rule ccontr)
      assume "length results \<noteq> 3"
      with le len have lt: "length results < 3" by simp
      then have "length results = 0 \<or> length results = 1 \<or> length results = 2" by linarith
      with stop len h rk sc show False by auto
    qed
    with pre len have "map hit results = ?rk" by simp
    then have "map fst (map hit results) = map fst ?rk" by simp
    with order show "map result_id results = [a, b, c]" by (simp add: hit_def comp_def)
  qed
  show ?thesis
    by (rule exI[of _ results], rule exI[of _ ?rk], intro conjI)
       (fact s, fact dist, fact keys, fact vals, fact desc, fact pre, fact iff, fact ex)
qed

text \<open>
  The hypotheses hold for a store of three memories whose files list them in the order
  C, A, B, with either of the two sorts: the search returns A, B, C.
\<close>

theorem search_walks_ranked_memories_witness:
  "sorts_descending stable_descending \<and> sorts_descending reversing_descending \<and>
   consistent 1 example_abc \<and> chunk_table example_abc \<noteq> [] \<and>
   memory_id ` set (chunk_table example_abc) \<subseteq> id_col ` set (memory_table example_abc) \<and>
   length [1::real] = 1 \<and>
   memory_id ` set (chunk_table example_abc) = {''A'', ''B'', ''C''} \<and>
   best_score (chunk_table example_abc) [1] ''A'' = 0.9 \<and>
   best_score (chunk_table example_abc) [1] ''B'' = 0.5 \<and>
   best_score (chunk_table example_abc) [1] ''C'' = 0.1 \<and>
   (\<exists>results. fst (search stable_descending ''query'' 0.3 3 (Inr [1]) example_abc) = Inr results \<and>
              map result_id results = [''A'', ''B'', ''C'']) \<and>
   (\<exists>results. fst (search reversing_descending ''query'' 0.3 3 (Inr [1]) example_abc) = Inr results \<and>
              map result_id results = [''A'', ''B'', ''C''])"
proof -
  note h0 = stable_descending_sorts
  note h0' = reversing_descending_sorts
  have h1: "consistent 1 example_abc" by code_simp
  have h2: "chunk_table example_abc \<noteq> []" by code_simp
  have h3: "memory_id ` set (chunk_table example_abc) \<subseteq> id_col ` set (memory_table example_abc)"
    by code_simp
  have h4: "length [1::real] = 1" by simp
  have k: "memory_id ` set (chunk_table example_abc) = {''A'', ''B'', ''C''}" by code_simp
  have a: "best_score (chunk_table example_abc) [1] ''A'' = 0.9" by code_simp
  have b: "best_score (chunk_table example_abc) [1] ''B'' = 0.5" by code_simp
  have c: "best_score (chunk_table example_abc) [1] ''C'' = 0.1" by code_simp
  have pr: "(0.3::real) = 0.3 \<and> (3::int) = 3 \<and>
      memory_id ` set (chunk_table example_abc) = {''A'', ''B'', ''C''} \<and>
      best_score (chunk_table example_abc) [1] ''A'' = 0.9 \<and>
      best_score (chunk_table example_abc) [1] ''B'' = 0.5 \<and>
      best_score (chunk_table example_abc) [1] ''C'' = 0.1"
    using k a b c by (intro conjI) simp_all
  from search_walks_ranked_memories[OF h0 h1 h2 h3 h4,
      of "''query''" "0.3" 3 "''A''" "''B''" "''C''"]
  obtain results rows where
    s: "fst (search stable_descending ''query'' 0.3 3 (Inr [1]) example_abc) = Inr results" and
    e: "(0.3::real) = 0.3 \<and> (3::int) = 3 \<and>
      memory_id ` set (chunk_table example_abc) = {''A'', ''B'', ''C''} \<and>
      best_score (chunk_table example_abc) [1] ''A'' = 0.9 \<and>
      best_score (chunk_table example_abc) [1] ''B'' = 0.5 \<and>
      best_score (chunk_table example_abc) [1] ''C'' = 0.1
        \<longrightarrow> map result_id results = [''A'', ''B'', ''C'']"
    by (elim exE conjE)
  from e pr have "map result_id results = [''A'', ''B'', ''C'']" by (rule mp)
  with s have r1: "\<exists>results.
      fst (search stable_descending ''query'' 0.3 3 (Inr [1]) example_abc) = Inr results \<and>
      map result_id results = [''A'', ''B'', ''C'']" by (intro exI[of _ results] conjI)
  from search_walks_ranked_memories[OF h0' h1 h2 h3 h4,
      of "''query''" "0.3" 3 "''A''" "''B''" "''C''"]
  obtain results' rows' where
    s': "fst (search reversing_descending ''query'' 0.3 3 (Inr [1]) example_abc) = Inr results'" and
    e': "(0.3::real) = 0.3 \<and> (3::int) = 3 \<and>
      memory_id ` set (chunk_table example_abc) = {''A'', ''B'', ''C''} \<and>
      best_score (chunk_table example_abc) [1] ''A'' = 0.9 \<and>
      best_score (chunk_table example_abc) [1] ''B'' = 0.5 \<and>
      best_score (chunk_table example_abc) [1] ''C'' = 0.1
        \<longrightarrow> map result_id results' = [''A'', ''B'', ''C'']"
    by (elim exE conjE)
  from e' pr have "map result_id results' = [''A'', ''B'', ''C'']" by (rule mp)
  with s' have r2: "\<exists>results.
      fst (search reversing_descending ''query'' 0.3 3 (Inr [1]) example_abc) = Inr results \<and>
      map result_id results = [''A'', ''B'', ''C'']" by (intro exI[of _ results'] conjI)
  from h0 h0' h1 h2 h3 h4 k a b c r1 r2 show ?thesis by (intro conjI)
qed

lemma hit_take_nth:
  assumes "map hit results = take (length results) rk" "i < length results"
  shows "hit (results ! i) = rk ! i" "i < length rk"
proof -
  from assms(1) have "length results = length (take (length results) rk)"
    by (metis length_map)
  then have le: "length results \<le> length rk" by simp
  with assms(2) show "i < length rk" by simp
  from assms have "map hit results ! i = take (length results) rk ! i" by simp
  with assms(2) show "hit (results ! i) = rk ! i" by simp
qed

text \<open>
  Claim C3. Under the hypotheses of claim C2, the similarity of every returned memory is
  the maximum of the dot products of its chunks' embeddings with the query embedding,
  and the result is in descending order of that maximum. A memory whose chunks score
  0.2, 0.95 and 0.4 is returned with similarity 0.95.
\<close>

theorem search_scores_best_chunk:
  assumes "sorts_descending sort_values"
    and "consistent D m" and "chunk_table m \<noteq> []"
    and "memory_id ` set (chunk_table m) \<subseteq> id_col ` set (memory_table m)"
    and "length q = D"
  shows "\<exists>results.
     fst (search sort_values query threshold min_results (Inr q) m) = Inr results \<and>
     (\<forall>r\<in>set results. similarity r = best_score (chunk_table m) q (result_id r)) \<and>
     sorted_wrt (\<lambda>a b. similarity a \<ge> similarity b) results \<and>
     (\<forall>r\<in>set results.
        map (\<lambda>c. dot (embedding c) q) (filter (\<lambda>c. memory_id c = result_id r) (chunk_table m))
          = [0.2, 0.95, 0.4] \<longrightarrow> similarity r = 0.95)"
proof -
  let ?rk = "ranking sort_values (chunk_table m) q"
  from search_result_shape[OF assms, of query threshold min_results] obtain results where
    s: "fst (search sort_values query threshold min_results (Inr q) m) = Inr results" and
    pre: "map hit results = take (length results) ?rk"
    by blast
  have best: "\<forall>r\<in>set results. similarity r = best_score (chunk_table m) q (result_id r)"
  proof
    fix r assume "r \<in> set results"
    then obtain i where i: "i < length results" and r: "r = results ! i"
      by (auto simp: in_set_conv_nth)
    from hit_take_nth[OF pre i] have "hit r = ?rk ! i" and "i < length ?rk" by (simp_all add: r)
    then have "(result_id r, similarity r) \<in> set ?rk"
      by (metis hit_def nth_mem)
    then show "similarity r = best_score (chunk_table m) q (result_id r)"
      by (rule ranking_value[OF assms(1)])
  qed
  have "sorted_wrt (\<lambda>a b. snd a \<ge> snd b) (take (length results) ?rk)"
    using ranking_descending[OF assms(1)] by (rule sorted_wrt_take)
  then have "sorted_wrt (\<lambda>a b. snd a \<ge> snd b) (map hit results)" by (simp only: pre)
  then have desc: "sorted_wrt (\<lambda>a b. similarity a \<ge> similarity b) results"
    by (simp add: sorted_wrt_map hit_def)
  have ex: "\<forall>r\<in>set results.
        map (\<lambda>c. dot (embedding c) q) (filter (\<lambda>c. memory_id c = result_id r) (chunk_table m))
          = [0.2, 0.95, 0.4] \<longrightarrow> similarity r = 0.95"
  proof (intro ballI impI)
    fix r assume r: "r \<in> set results"
      and sc: "map (\<lambda>c. dot (embedding c) q)
                 (filter (\<lambda>c. memory_id c = result_id r) (chunk_table m)) = [0.2, 0.95, 0.4]"
    have "(\<lambda>c. dot (embedding c) q) ` {c \<in> set (chunk_table m). memory_id c = result_id r}
          = set (map (\<lambda>c. dot (embedding c) q)
                 (filter (\<lambda>c. memory_id c = result_id r) (chunk_table m)))"
      by auto
    also have "\<dots> = {0.2, 0.95, 0.4}" by (simp only: sc) simp
    finally have "best_score (chunk_table m) q (result_id r) = Max {0.2, 0.95, 0.4}"
      by (simp only: best_score_def)
    also have "\<dots> = 0.95" by simp
    finally show "similarity r = 0.95" using best r by simp
  qed
  show ?thesis
    by (rule exI[of _ results], intro conjI) (fact s, fact best, fact desc, fact ex)
qed

theorem search_scores_best_chunk_witness:
  "sorts_descending stable_descending \<and> consistent 1 example_multi \<and> chunk_table example_multi \<noteq> [] \<and>
   memory_id ` set (chunk_table example_multi) \<subseteq> id_col ` set (memory_table example_multi) \<and>
   length [1::real] = 1 \<and>
   map (\<lambda>c. dot (embedding c) [1]) (filter (\<lambda>c. memory_id c = ''M1'') (chunk_table example_multi))
     = [0.2, 0.95, 0.4] \<and>
   map hit (projr (fst (search stable_descending ''query'' 0.3 3 (Inr [1]) example_multi)))
     = [(''M1'', 0.95), (''M2'', 0.5)] \<and>
   (\<exists>results. fst (search stable_descending ''query'' 0.3 3 (Inr [1]) example_multi) = Inr results \<and>
      similarity (hd results) = 0.95)"
proof -
  note h0 = stable_descending_sorts
  have h1: "consistent 1 example_multi" by code_simp
  have h2: "chunk_table example_multi \<noteq> []" by code_simp
  have h3: "memory_id ` set (chunk_table example_multi) \<subseteq> id_col ` set (memory_table example_multi)"
    by code_simp
  have h4: "length [1::real] = 1" by simp
  have sc: "map (\<lambda>c. dot (embedding c) [1])
              (filter (\<lambda>c. memory_id c = ''M1'') (chunk_table example_multi)) = [0.2, 0.95, 0.4]"
    by code_simp
  have v: "map hit (projr (fst (search stable_descending ''query'' 0.3 3 (Inr [1]) example_multi)))
     = [(''M1'', 0.95), (''M2'', 0.5)]" by code_simp
  from search_scores_best_chunk[OF h0 h1 h2 h3 h4, of "''query''" "0.3" 3] obtain results where
    s: "fst (search stable_descending ''query'' 0.3 3 (Inr [1]) example_multi) = Inr results" and
    e: "\<forall>r\<in>set results.
        map (\<lambda>c. dot (embedding c) [1]) (filter (\<lambda>c. memory_id c = result_id r) (chunk_table example_multi))
          = [0.2, 0.95, 0.4] \<longrightarrow> similarity r = 0.95"
    by (elim exE conjE)
  from v s have "map hit results = [(''M1'', 0.95), (''M2'', 0.5)]" by simp
  then have ne: "results \<noteq> []" and id1: "result_id (hd results) = ''M1''"
    by (auto simp: hit_def)
  from ne have "hd results \<in> set results" by simp
  with e sc id1 have "similarity (hd results) = 0.95" by simp
  with s have "\<exists>results. fst (search stable_descending ''query'' 0.3 3 (Inr [1]) example_multi) = Inr results \<and>
      similarity (hd results) = 0.95" by (intro exI[of _ results] conjI)
  with h0 h1 h2 h3 h4 sc v show ?thesis by (intro conjI)
qed

text \<open>
  Claim C9. On a consistent store without chunks, \<open>search\<close> returns the empty list,
  whatever the query, the threshold, \<open>min_results\<close> and the answer the provider would
  give, and the provider is not called: the trace of calls is unchanged.
\<close>

theorem search_empty_store:
  assumes "consistent D m" and "chunk_table m = []"
  shows "fst (search sort_values query threshold min_results response m) = Inr [] \<and>
         provider_calls (snd (search sort_values query threshold min_results response m)) = provider_calls m"
proof -
  from consistent_load[OF assms(1)] obtain m0 where
    l: "load_tables m = (Inr (), m0)" and
    cc: "chunks_cache m0 = Some (chunk_table m)" and
    pc: "provider_calls m0 = provider_calls m"
    by blast
  with assms(2) show ?thesis by (simp add: search_def)
qed

theorem search_empty_store_witness:
  "consistent 1 (init None None) \<and> chunk_table (init None None) = [] \<and>
   fst (search stable_descending ''anything'' 0.3 3 (Inr [1]) (init None None)) = Inr [] \<and>
   provider_calls (snd (search stable_descending ''anything'' 0.3 3 (Inr [1]) (init None None))) = []"
proof -
  have h1: "consistent 1 (init None None)" by code_simp
  have h2: "chunk_table (init None None) = []" by code_simp
  have p: "provider_calls (init None None) = []" by (simp add: init_def)
  from search_empty_store[OF h1 h2, of stable_descending "''anything''" "0.3" 3 "Inr [1]"] h1 h2 p
  show ?thesis by simp
qed

lemma search_Inr_cases:
  assumes "search srt query threshold min_results response m = (Inr results, m')"
  shows "results = [] \<or>
         (\<exists>memories sims. search_walk memories threshold min_results
                    (best_per_memory srt (map memory_id (chunk_table m)) sims) [] = Inr results)"
proof -
  obtain r m0 where l: "load_tables m = (r, m0)" by (cases "load_tables m")
  with assms obtain u where r: "r = Inr u" by (cases r) (auto simp: search_def)
  then have l': "load_tables m = (Inr (), m0)" using l by simp
  from assms l' obtain chunks where cc: "chunks_cache m0 = Some chunks"
    by (cases "chunks_cache m0") (auto simp: search_def)
  have "chunk_table m0 = chunks"
    using load_tables_tables(1)[OF l'] cc by (simp add: chunk_table_def table_rows_def)
  then have ct: "chunk_table m = chunks" using load_tables_tables(3)[OF l'] by simp
  show ?thesis
  proof (cases "chunks = []")
    case True
    with assms l' cc show ?thesis by (simp add: search_def)
  next
    case False
    with assms l' cc ct show ?thesis
      by (auto simp: search_def Let_def split: sum.splits option.splits if_splits)
  qed
qed

text \<open>
  Claim C10. Whenever \<open>search\<close> returns a list, whatever the order the sort gives to
  rows of equal similarity, no memory id occurs twice in it, and it has at most as many
  entries as there are distinct memory ids in the chunk table.
\<close>

theorem search_results_distinct:
  assumes "sorts_descending sort_values"
    and "search sort_values query threshold min_results response m = (Inr results, m')"
  shows "distinct (map result_id results) \<and>
         length results \<le> card (memory_id ` set (chunk_table m))"
proof (cases "results = []")
  case True
  then show ?thesis by simp
next
  case False
  with search_Inr_cases[OF assms(2)] obtain memories sims where
    w: "search_walk memories threshold min_results
          (best_per_memory sort_values (map memory_id (chunk_table m)) sims) [] = Inr results"
    by blast
  let ?rk = "best_per_memory sort_values (map memory_id (chunk_table m)) sims"
  from search_walk_prefix[OF w] obtain k where "map hit results = take k ?rk" by auto
  then have "map fst (map hit results) = take k (map fst ?rk)" by (simp add: take_map)
  then have ids: "map result_id results = take k (map fst ?rk)" by (simp add: hit_def comp_def)
  have d: "distinct (map result_id results)"
    unfolding ids using best_per_memory_distinct[OF assms(1)] by (rule distinct_take)
  have "set (map result_id results) \<subseteq> fst ` set ?rk"
    unfolding ids using set_take_subset[of k "map fst ?rk"] by simp
  also have "\<dots> = fst ` set (zip (map memory_id (chunk_table m)) sims)"
    by (rule best_per_memory_keys[OF assms(1)])
  also have "\<dots> \<subseteq> memory_id ` set (chunk_table m)"
    by (auto dest: set_zip_leftD)
  finally have "card (set (map result_id results)) \<le> card (memory_id ` set (chunk_table m))"
    by (intro card_mono) auto
  with d show ?thesis by (metis distinct_card length_map)
qed

theorem search_results_distinct_witness:
  "sorts_descending reversing_descending \<and>
   search reversing_descending ''query'' 0.1 3 (Inr [1]) example_multi
     = (Inr (projr (fst (search reversing_descending ''query'' 0.1 3 (Inr [1]) example_multi))),
        snd (search reversing_descending ''query'' 0.1 3 (Inr [1]) example_multi)) \<and>
   map result_id (projr (fst (search reversing_descending ''query'' 0.1 3 (Inr [1]) example_multi))) = [''M1'', ''M2''] \<and>
   distinct (map result_id (projr (fst (search reversing_descending ''query'' 0.1 3 (Inr [1]) example_multi)))) \<and>
   length (projr (fst (search reversing_descending ''query'' 0.1 3 (Inr [1]) example_multi)))
     \<le> card (memory_id ` set (chunk_table example_multi))"
proof -
  have h: "search reversing_descending ''query'' 0.1 3 (Inr [1]) example_multi
     = (Inr (projr (fst (search reversing_descending ''query'' 0.1 3 (Inr [1]) example_multi))),
        snd (search reversing_descending ''query'' 0.1 3 (Inr [1]) example_multi))" by code_simp
  have v: "map result_id (projr (fst (search reversing_descending ''query'' 0.1 3 (Inr [1]) example_multi)))
           = [''M1'', ''M2'']" by code_simp
  from search_results_distinct[OF reversing_descending_sorts h] reversing_descending_sorts h v
  show ?thesis by (intro conjI) simp_all
qed

end
